theory Spec2Isabelle
  imports Complex_Main "HOL-Library.Multiset"
begin

section \<open>Python library functions used by the pairing scripts\<close>

text \<open>
  Scores, handicap indices and course handicaps are Python floats in the scripts. They are
  modelled as \<^typ>\<open>real\<close>: every property below is about comparisons of computed values
  and about which players end up in which pair, not about rounding.

  A Python \<^verbatim>\<open>dict\<close> is an association list read with \<^const>\<open>map_of\<close>; the
  emptiness test \<^verbatim>\<open>if ch_lookup:\<close> is then \<open>ch_lookup \<noteq> []\<close>.
\<close>

datatype py_error = IndexError | KeyError | TypeError | ZeroDivisionError

definition dict_get :: "('k \<times> 'v) list \<Rightarrow> 'k \<Rightarrow> 'v \<Rightarrow> 'v" where
  "dict_get d k dflt = (case map_of d k of None \<Rightarrow> dflt | Some v \<Rightarrow> v)"

text \<open>
  \<^verbatim>\<open>itertools.permutations(iterable, r)\<close>: the \<open>r\<close>-length permutations, elements
  treated by position, emitted in lexicographic order of positions. \<open>selections xs\<close>
  lists every element together with the others, in input order.
\<close>

fun selections :: "'a list \<Rightarrow> ('a \<times> 'a list) list" where
  "selections [] = []"
| "selections (x # xs) = (x, xs) # map (\<lambda>(y, ys). (y, x # ys)) (selections xs)"

fun permutations_r :: "nat \<Rightarrow> 'a list \<Rightarrow> 'a list list" where
  "permutations_r 0 xs = [[]]"
| "permutations_r (Suc r) xs =
     concat (map (\<lambda>(y, ys). map ((#) y) (permutations_r r ys)) (selections xs))"

definition permutations :: "'a list \<Rightarrow> 'a list list" where
  "permutations xs = permutations_r (length xs) xs"

section \<open>generate\_pairings.py: constraints and helpers\<close>

record player_row =
  Player_Name :: string
  Combined_Value_Score :: real

definition REQUIRED_PAIRINGS :: "(string \<times> string) list" where
  "REQUIRED_PAIRINGS = [(''Greg Park'', ''Hugo Lamprecht'')]"

definition EITHER_OR_PAIRINGS :: "(string list \<times> string) list" where
  "EITHER_OR_PAIRINGS = [([''Ian Scott'', ''Grant Syme''], ''Matt Maritz'')]"

definition EXCLUSIONS :: "(string \<times> string list) list" where
  "EXCLUSIONS =
     [(''Jacques vd Berg'', [''Gerdus Theron'', ''Frank Coetzee'', ''Marcelle Smith''])]"

definition MIN_CH_DIFF :: real where
  "MIN_CH_DIFF = 2"

definition find_player :: "player_row list \<Rightarrow> string \<Rightarrow> player_row option" where
  "find_player df name = List.find (\<lambda>r. Player_Name r = name) df"

definition get_ch_diff :: "(string \<times> real) list \<Rightarrow> string \<Rightarrow> string \<Rightarrow> real" where
  "get_ch_diff ch_lookup anchor_name gunner_name =
     (let anchor_ch = dict_get ch_lookup anchor_name 0;
          gunner_ch = dict_get ch_lookup gunner_name 0
      in \<bar>gunner_ch - anchor_ch\<bar>)"

definition is_valid_pairing :: "(string \<times> real) list \<Rightarrow> string \<Rightarrow> string \<Rightarrow> bool" where
  "is_valid_pairing ch_lookup anchor_name gunner_name =
     (if gunner_name \<in> set (dict_get EXCLUSIONS anchor_name []) then False
      else if ch_lookup \<noteq> [] \<and> get_ch_diff ch_lookup anchor_name gunner_name < MIN_CH_DIFF
        then False
      else True)"

definition get_combined_score :: "(string \<times> real) list \<Rightarrow> string \<Rightarrow> string \<Rightarrow> real" where
  "get_combined_score score_lookup anchor_name gunner_name =
     dict_get score_lookup anchor_name 0 + dict_get score_lookup gunner_name 0"

section \<open>generate\_pairings.py: the exact permutation search\<close>

text \<open>
  The inner loop over \<^verbatim>\<open>zip(remaining_anchors, perm)\<close>: it stops at the first invalid
  pair (\<^verbatim>\<open>break\<close>) and otherwise adds the pair's combined score to the running total.
\<close>

fun score_assignment ::
  "(string \<times> real) list \<Rightarrow> (string \<times> real) list \<Rightarrow> (string \<times> string) list \<Rightarrow> real
     \<Rightarrow> bool \<times> real" where
  "score_assignment ch_lookup score_lookup [] total_score = (True, total_score)"
| "score_assignment ch_lookup score_lookup ((anchor, gunner) # rest) total_score =
     (if \<not> is_valid_pairing ch_lookup anchor gunner then (False, total_score)
      else score_assignment ch_lookup score_lookup rest
             (total_score + get_combined_score score_lookup anchor gunner))"

type_synonym search_state = "(string \<times> string) list option \<times> real"

definition search_step ::
  "(string \<times> real) list \<Rightarrow> (string \<times> real) list \<Rightarrow> string list \<Rightarrow> search_state
     \<Rightarrow> string list \<Rightarrow> search_state" where
  "search_step ch_lookup score_lookup remaining_anchors st perm =
     (case score_assignment ch_lookup score_lookup (zip remaining_anchors perm) 0 of
        (valid, total_score) \<Rightarrow>
          if valid \<and> total_score > snd st then (Some (zip remaining_anchors perm), total_score)
          else st)"

definition exact_search ::
  "(string \<times> real) list \<Rightarrow> (string \<times> real) list \<Rightarrow> string list \<Rightarrow> string list
     \<Rightarrow> search_state" where
  "exact_search ch_lookup score_lookup remaining_anchors remaining_gunners =
     foldl (search_step ch_lookup score_lookup remaining_anchors) (None, - 1)
       (permutations remaining_gunners)"

text \<open>
  Whether the inner loop accepts a permutation, and the total it computes for it: the two
  values the search compares.
\<close>

definition perm_valid ::
  "(string \<times> real) list \<Rightarrow> (string \<times> real) list \<Rightarrow> string list \<Rightarrow> string list \<Rightarrow> bool" where
  "perm_valid ch_lookup score_lookup remaining_anchors perm =
     fst (score_assignment ch_lookup score_lookup (zip remaining_anchors perm) 0)"

definition perm_total ::
  "(string \<times> real) list \<Rightarrow> (string \<times> real) list \<Rightarrow> string list \<Rightarrow> string list \<Rightarrow> real" where
  "perm_total ch_lookup score_lookup remaining_anchors perm =
     snd (score_assignment ch_lookup score_lookup (zip remaining_anchors perm) 0)"

section \<open>generate\_pairings.py: fixed pairs, fallback and the final pair list\<close>

text \<open>
  The state of the two constraint loops: \<^verbatim>\<open>fixed_pairs\<close>, \<^verbatim>\<open>used_anchors\<close> and
  \<^verbatim>\<open>used_gunners\<close>.
\<close>

type_synonym fixed_state = "(string \<times> string \<times> string) list \<times> string set \<times> string set"

text \<open>Step 1: one iteration of the loop over \<^verbatim>\<open>REQUIRED_PAIRINGS\<close>.\<close>

fun required_step ::
  "player_row list \<Rightarrow> player_row list \<Rightarrow> fixed_state \<Rightarrow> string \<times> string \<Rightarrow> fixed_state" where
  "required_step top_anchors top_gunners (fixed_pairs, used_anchors, used_gunners)
       (anchor_name, gunner_name) =
     (let anchor = (case find_player top_anchors anchor_name of
                      None \<Rightarrow> find_player top_gunners anchor_name
                    | Some r \<Rightarrow> Some r);
          gunner = (case find_player top_gunners gunner_name of
                      None \<Rightarrow> find_player top_anchors gunner_name
                    | Some r \<Rightarrow> Some r)
      in case (anchor, gunner) of
           (Some a, Some g) \<Rightarrow>
             (fixed_pairs @ [(Player_Name a, Player_Name g, ''REQUIRED'')],
              insert (Player_Name a) used_anchors, insert (Player_Name g) used_gunners)
         | _ \<Rightarrow> (fixed_pairs, used_anchors, used_gunners))"

text \<open>
  Step 2: the inner loop over \<^verbatim>\<open>anchor_options\<close> ("try each anchor option in order of
  preference"), leaving at the first option that is found and not yet used as an anchor.
\<close>

fun try_anchor_options ::
  "player_row list \<Rightarrow> player_row list \<Rightarrow> player_row \<Rightarrow> fixed_state \<Rightarrow> string list
     \<Rightarrow> fixed_state" where
  "try_anchor_options top_anchors top_gunners gunner st [] = st"
| "try_anchor_options top_anchors top_gunners gunner (fixed_pairs, used_anchors, used_gunners)
       (anchor_name # rest) =
     (let anchor = (case find_player top_anchors anchor_name of
                      None \<Rightarrow> find_player top_gunners anchor_name
                    | Some r \<Rightarrow> Some r)
      in case anchor of
           Some a \<Rightarrow>
             if Player_Name a \<notin> used_anchors
             then (fixed_pairs @ [(Player_Name a, Player_Name gunner, ''REQUIRED (either/or)'')],
                   insert (Player_Name a) used_anchors,
                   insert (Player_Name gunner) used_gunners)
             else try_anchor_options top_anchors top_gunners gunner
                    (fixed_pairs, used_anchors, used_gunners) rest
         | None \<Rightarrow> try_anchor_options top_anchors top_gunners gunner
                    (fixed_pairs, used_anchors, used_gunners) rest)"

fun either_or_step ::
  "player_row list \<Rightarrow> player_row list \<Rightarrow> fixed_state \<Rightarrow> string list \<times> string \<Rightarrow> fixed_state" where
  "either_or_step top_anchors top_gunners (fixed_pairs, used_anchors, used_gunners)
       (anchor_options, gunner_name) =
     (let gunner = (case find_player top_gunners gunner_name of
                      None \<Rightarrow> find_player top_anchors gunner_name
                    | Some r \<Rightarrow> Some r)
      in case gunner of
           Some g \<Rightarrow>
             if Player_Name g \<notin> used_gunners
             then try_anchor_options top_anchors top_gunners g
                    (fixed_pairs, used_anchors, used_gunners) anchor_options
             else (fixed_pairs, used_anchors, used_gunners)
         | None \<Rightarrow> (fixed_pairs, used_anchors, used_gunners))"

definition fixed_pairing ::
  "(string \<times> string) list \<Rightarrow> (string list \<times> string) list \<Rightarrow> player_row list \<Rightarrow> player_row list
     \<Rightarrow> fixed_state" where
  "fixed_pairing required either_or top_anchors top_gunners =
     foldl (either_or_step top_anchors top_gunners)
       (foldl (required_step top_anchors top_gunners) ([], {}, {}) required)
       either_or"

text \<open>
  The fallback: for every remaining anchor the first remaining gunner that is neither taken
  by the fallback already nor excluded for that anchor; an anchor with no such gunner is
  left out.
\<close>

fun fallback_greedy :: "string list \<Rightarrow> string list \<Rightarrow> string set \<Rightarrow> (string \<times> string) list" where
  "fallback_greedy [] remaining_gunners temp_used_gunners = []"
| "fallback_greedy (anchor # rest) remaining_gunners temp_used_gunners =
     (case List.find (\<lambda>gunner. gunner \<notin> temp_used_gunners
                         \<and> gunner \<notin> set (dict_get EXCLUSIONS anchor [])) remaining_gunners of
        Some gunner \<Rightarrow>
          (anchor, gunner) # fallback_greedy rest remaining_gunners (insert gunner temp_used_gunners)
      | None \<Rightarrow> fallback_greedy rest remaining_gunners temp_used_gunners)"

text \<open>
  Step 3: the players left for the optimisation, and the assignment: the result of the
  exact search, or of the fallback when the search has found nothing.
\<close>

definition remaining_names :: "player_row list \<Rightarrow> string set \<Rightarrow> string list" where
  "remaining_names pool all_used_players =
     map Player_Name (filter (\<lambda>row. Player_Name row \<notin> all_used_players) pool)"

definition best_assignment ::
  "(string \<times> real) list \<Rightarrow> (string \<times> real) list \<Rightarrow> string list \<Rightarrow> string list
     \<Rightarrow> (string \<times> string) list" where
  "best_assignment ch_lookup score_lookup remaining_anchors remaining_gunners =
     (case fst (exact_search ch_lookup score_lookup remaining_anchors remaining_gunners) of
        Some assignment \<Rightarrow> assignment
      | None \<Rightarrow> fallback_greedy remaining_anchors remaining_gunners {})"

text \<open>
  The entries of \<^verbatim>\<open>all_pairs\<close>: the anchor's row, the gunner's row, the constraint tag
  and the course-handicap difference. A row that \<^verbatim>\<open>find_player\<close> does not find is
  \<^verbatim>\<open>None\<close>, and the sort key then raises \<^verbatim>\<open>TypeError\<close>.
\<close>

type_synonym pair_entry = "player_row option \<times> player_row option \<times> string \<times> real"

definition fixed_entry ::
  "(string \<times> real) list \<Rightarrow> player_row list \<Rightarrow> player_row list \<Rightarrow> string \<times> string \<times> string
     \<Rightarrow> pair_entry" where
  "fixed_entry ch_lookup top_anchors top_gunners fp =
     (case fp of (anchor_name, gunner_name, constraint) \<Rightarrow>
        (let anchor = (case find_player top_anchors anchor_name of
                         None \<Rightarrow> find_player top_gunners anchor_name
                       | Some r \<Rightarrow> Some r);
             gunner = (case find_player top_gunners gunner_name of
                         None \<Rightarrow> find_player top_anchors gunner_name
                       | Some r \<Rightarrow> Some r)
         in (anchor, gunner, constraint, get_ch_diff ch_lookup anchor_name gunner_name)))"

definition auto_entry ::
  "(string \<times> real) list \<Rightarrow> player_row list \<Rightarrow> player_row list \<Rightarrow> string \<times> string
     \<Rightarrow> pair_entry" where
  "auto_entry ch_lookup top_anchors top_gunners p =
     (case p of (anchor_name, gunner_name) \<Rightarrow>
        (find_player top_anchors anchor_name, find_player top_gunners gunner_name, ''AUTO'',
         get_ch_diff ch_lookup anchor_name gunner_name))"

type_synonym pairing = "player_row \<times> player_row \<times> string \<times> real"

fun found_entries :: "pair_entry list \<Rightarrow> pairing list option" where
  "found_entries [] = Some []"
| "found_entries ((Some anchor, Some gunner, constraint, ch_diff) # rest) =
     (case found_entries rest of
        Some ps \<Rightarrow> Some ((anchor, gunner, constraint, ch_diff) # ps)
      | None \<Rightarrow> None)"
| "found_entries (_ # rest) = None"

definition pair_score :: "pairing \<Rightarrow> real" where
  "pair_score x =
     (case x of (anchor, gunner, _, _) \<Rightarrow> Combined_Value_Score anchor + Combined_Value_Score gunner)"

text \<open>
  The run from the score lookup to the pair statistics. The inputs are the two pools after
  selection, the course-handicap lookup and the score lookup. The sorted pair list is what
  the records, the printout and the CSV file are made of. With no pair at all, the data
  frame has no column and the statistics raise \<^verbatim>\<open>KeyError\<close>.
\<close>

definition generate_pairings ::
  "player_row list \<Rightarrow> player_row list \<Rightarrow> (string \<times> real) list \<Rightarrow> (string \<times> real) list
     \<Rightarrow> py_error + pairing list" where
  "generate_pairings top_anchors top_gunners ch_lookup score_lookup =
     (case fixed_pairing REQUIRED_PAIRINGS EITHER_OR_PAIRINGS top_anchors top_gunners of
        (fixed_pairs, used_anchors, used_gunners) \<Rightarrow>
          (let all_used_players = used_anchors \<union> used_gunners;
               remaining_anchors = remaining_names top_anchors all_used_players;
               remaining_gunners = remaining_names top_gunners all_used_players;
               assignment = best_assignment ch_lookup score_lookup
                              remaining_anchors remaining_gunners;
               all_pairs = map (fixed_entry ch_lookup top_anchors top_gunners) fixed_pairs
                         @ map (auto_entry ch_lookup top_anchors top_gunners) assignment
           in case found_entries all_pairs of
                None \<Rightarrow> Inl TypeError
              | Some ps \<Rightarrow>
                  if ps = [] then Inl KeyError
                  else Inr (sort_key (\<lambda>x. - pair_score x) ps)))"


text \<open>The names in the pair list, pair by pair: what "appears in a pair" refers to.\<close>

definition pair_names :: "pairing list \<Rightarrow> string list" where
  "pair_names ps =
     concat (map (\<lambda>x. case x of (anchor, gunner, _, _) \<Rightarrow> [Player_Name anchor, Player_Name gunner]) ps)"

text \<open>
  The same for the intermediate lists: the fixed pairs and the assignment hold names, the
  entries of \<^verbatim>\<open>all_pairs\<close> hold the rows found for them.
\<close>

definition assignment_names :: "(string \<times> string) list \<Rightarrow> string list" where
  "assignment_names asg = concat (map (\<lambda>(a, g). [a, g]) asg)"

definition entry_of :: "pairing \<Rightarrow> pair_entry" where
  "entry_of p = (case p of (x, y, c, d) \<Rightarrow> (Some x, Some y, c, d))"

definition fixed_names :: "(string \<times> string \<times> string) list \<Rightarrow> string list" where
  "fixed_names fp = concat (map (\<lambda>(a, g, c). [a, g]) fp)"

section \<open>generate\_pairings\_v2.py: players and the pairing score\<close>

text \<open>
  A player is a Python dict. The fields the pairing logic reads are kept: the name, the
  handicap index, the commitment, the combined value score (\<^verbatim>\<open>None\<close> when the analysis
  has no row for the player) and the matchplay record (\<^verbatim>\<open>None\<close> when there is no
  history), of which the score uses the number of matches and the win percentage.
\<close>

record player =
  name :: string
  hi :: real
  commitment :: string

record matchplay_record =
  matches :: int
  win_pct :: real

record player_v2 = player +
  combined_score :: "real option"
  matchplay :: "matchplay_record option"

definition calculate_pairing_score :: "player_v2 \<Rightarrow> player_v2 \<Rightarrow> real" where
  "calculate_pairing_score player1 player2 =
     (let cvs1 = (case combined_score player1 of None \<Rightarrow> 0 | Some v \<Rightarrow> v);
          cvs2 = (case combined_score player2 of None \<Rightarrow> 0 | Some v \<Rightarrow> v);
          score = (cvs1 + cvs2) * (6 / 10);
          mp1 = matchplay player1;
          mp2 = matchplay player2;
          win_pct1 = (case mp1 of None \<Rightarrow> 40 | Some m \<Rightarrow> win_pct m);
          win_pct2 = (case mp2 of None \<Rightarrow> 40 | Some m \<Rightarrow> win_pct m);
          matches1 = (case mp1 of None \<Rightarrow> 0 | Some m \<Rightarrow> matches m);
          matches2 = (case mp2 of None \<Rightarrow> 0 | Some m \<Rightarrow> matches m);
          experience_bonus = min (real_of_int (matches1 + matches2) / 100) 1;
          score = score + ((win_pct1 + win_pct2) / 100) * 3 * (3 / 10);
          score = score + experience_bonus * (5 / 10);
          spread = \<bar>hi player1 - hi player2\<bar>
      in if 5 \<le> spread \<and> spread \<le> 15 then score + 1
         else if 3 \<le> spread \<and> spread \<le> 20 then score + 5 / 10
         else score)"

section \<open>generate\_pairings\_v2.py: the balance heuristic\<close>

text \<open>
  A scored pair \<^verbatim>\<open>(p1, p2, score)\<close>, and the test of the list comprehensions:
  neither player of the pair is in the set of used names.
\<close>

type_synonym scored_pair = "player_v2 \<times> player_v2 \<times> real"

definition pair_free :: "string set \<Rightarrow> scored_pair \<Rightarrow> bool" where
  "pair_free used t = (case t of (p1, p2, s) \<Rightarrow> name p1 \<notin> used \<and> name p2 \<notin> used)"

definition pair_used :: "string set \<Rightarrow> scored_pair \<Rightarrow> string set" where
  "pair_used used t = (case t of (p1, p2, s) \<Rightarrow> insert (name p2) (insert (name p1) used))"

text \<open>
  The index \<^verbatim>\<open>greedy_balanced\<close> picks in the list of valid pairs: a quarter of the way
  down for the even picks, the middle for the odd ones.
\<close>

definition pick_index :: "nat \<Rightarrow> nat \<Rightarrow> nat" where
  "pick_index n_selected n_valid =
     (if n_selected mod 2 = 0 then min (n_valid div 4) (n_valid - 1) else n_valid div 2)"

lemma pick_index_less: "0 < n \<Longrightarrow> pick_index k n < n"
  by (auto simp: pick_index_def min_def)

lemma filter_pair_used_shorter:
  assumes "t \<in> set remaining"
  shows "length (filter (pair_free (pair_used used t)) remaining) < length remaining"
proof -
  have "\<not> pair_free (pair_used used t) t"
    by (cases t) (simp add: pair_free_def pair_used_def)
  with assms show ?thesis
    by (meson length_filter_less)
qed

text \<open>The \<^verbatim>\<open>while\<close> loop of \<^verbatim>\<open>greedy_balanced\<close>.\<close>

function greedy_balanced_loop ::
  "nat \<Rightarrow> scored_pair list \<Rightarrow> string set \<Rightarrow> scored_pair list \<Rightarrow> scored_pair list" where
  "greedy_balanced_loop pairs_needed selected used remaining =
     (if length selected < pairs_needed \<and> remaining \<noteq> [] then
        (let valid = filter (pair_free used) remaining
         in if valid = [] then selected
            else
              (let idx = pick_index (length selected) (length valid);
                   t = valid ! idx;
                   used' = pair_used used t
               in greedy_balanced_loop pairs_needed (selected @ [t]) used'
                    (filter (pair_free used') remaining)))
      else selected)"
  by pat_completeness auto
termination
proof (relation "measure (\<lambda>(pairs_needed, selected, used, remaining). length remaining)")
  show "wf (measure (\<lambda>(pairs_needed, selected, used, remaining). length remaining))"
    by simp
next
  fix pairs_needed :: nat and selected :: "scored_pair list" and used :: "string set"
    and remaining valid :: "scored_pair list" and idx :: nat and t :: scored_pair
    and used' :: "string set"
  assume valid: "valid = filter (pair_free used) remaining" "valid \<noteq> []"
    and idx: "idx = pick_index (length selected) (length valid)"
    and t: "t = valid ! idx" and used': "used' = pair_used used t"
  from valid(2) idx have "idx < length valid"
    by (simp add: pick_index_less)
  with t have "t \<in> set valid" by simp
  with valid(1) have "t \<in> set remaining" by simp
  then show "((pairs_needed, selected @ [t], used', filter (pair_free used') remaining),
              (pairs_needed, selected, used, remaining))
             \<in> measure (\<lambda>(pairs_needed, selected, used, remaining). length remaining)"
    by (simp add: used' filter_pair_used_shorter)
qed

declare greedy_balanced_loop.simps [simp del]

definition greedy_balanced :: "nat \<Rightarrow> scored_pair list \<Rightarrow> scored_pair list" where
  "greedy_balanced pairs_needed available_pairs_list =
     greedy_balanced_loop pairs_needed [] {} available_pairs_list"

text \<open>
  The \<^verbatim>\<open>for\<close> loop of \<^verbatim>\<open>pure_greedy\<close>; it leaves (\<^verbatim>\<open>break\<close>) once enough pairs are
  selected, which is tested only after a pair has been added.
\<close>

fun pure_greedy_loop ::
  "nat \<Rightarrow> scored_pair list \<Rightarrow> scored_pair list \<Rightarrow> string set \<Rightarrow> scored_pair list" where
  "pure_greedy_loop pairs_needed [] selected used = selected"
| "pure_greedy_loop pairs_needed (t # rest) selected used =
     (if pair_free used t then
        (if length (selected @ [t]) \<ge> pairs_needed then selected @ [t]
         else pure_greedy_loop pairs_needed rest (selected @ [t]) (pair_used used t))
      else pure_greedy_loop pairs_needed rest selected used)"

definition pure_greedy :: "nat \<Rightarrow> scored_pair list \<Rightarrow> scored_pair list" where
  "pure_greedy pairs_needed available_pairs_list =
     pure_greedy_loop pairs_needed available_pairs_list [] {}"

text \<open>
  \<^verbatim>\<open>evaluate\<close> returns the variance and the minimum of the scores. The variance of a
  solution with too few pairs is \<^verbatim>\<open>float('inf')\<close>, written \<open>None\<close> here, and its minimum
  is -1. For an empty solution that is long enough (no pair needed) the average divides by
  zero.
\<close>

definition evaluate :: "nat \<Rightarrow> scored_pair list \<Rightarrow> py_error + (real option \<times> real)" where
  "evaluate pairs_needed sol =
     (if length sol < pairs_needed then Inr (None, - 1)
      else
        (let scores = map (\<lambda>t. snd (snd t)) sol
         in if scores = [] then Inl ZeroDivisionError
            else
              (let avg = sum_list scores / real (length scores);
                   variance = sum_list (map (\<lambda>s. (s - avg)\<^sup>2) scores) / real (length scores);
                   min_score = Min (set scores)
               in Inr (Some variance, min_score))))"

text \<open>The comparison \<^verbatim>\<open>bal_var < greedy_var\<close> of variances that may be infinite.\<close>

fun variance_less :: "real option \<Rightarrow> real option \<Rightarrow> bool" where
  "variance_less (Some a) (Some b) = (a < b)"
| "variance_less (Some a) None = True"
| "variance_less None _ = False"

definition find_balanced_pairings ::
  "nat \<Rightarrow> scored_pair list \<Rightarrow> py_error + scored_pair list" where
  "find_balanced_pairings pairs_needed available_pairs =
     (let solution = greedy_balanced pairs_needed available_pairs;
          greedy_solution = pure_greedy pairs_needed available_pairs
      in case evaluate pairs_needed solution of
           Inl e \<Rightarrow> Inl e
         | Inr (bal_var, bal_min) \<Rightarrow>
             (case evaluate pairs_needed greedy_solution of
                Inl e \<Rightarrow> Inl e
              | Inr (greedy_var, greedy_min) \<Rightarrow>
                  if bal_min > greedy_min + 5 / 10 then Inr solution
                  else if greedy_min > bal_min + 5 / 10 then Inr greedy_solution
                  else if variance_less bal_var greedy_var then Inr solution
                  else Inr greedy_solution))"

section \<open>generate\_pairings\_v2.py: constraints and the run\<close>

definition required_pairings :: "(string \<times> string) list" where
  "required_pairings = [(''Greg Park'', ''Hugo Lamprecht'')]"

definition matt_options :: "(string \<times> string) list" where
  "matt_options = [(''Matt Maritz'', ''Grant Syme''), (''Matt Maritz'', ''Ian Scott'')]"

definition find_player_v2 :: "player_v2 list \<Rightarrow> string \<Rightarrow> player_v2 option" where
  "find_player_v2 top_players n = List.find (\<lambda>p. name p = n) top_players"

text \<open>The state of the constraint steps: \<^verbatim>\<open>best_pairings\<close> and \<^verbatim>\<open>used_players\<close>.\<close>

type_synonym best_state = "((player_v2 \<times> player_v2) \<times> real) list \<times> string set"

text \<open>
  One iteration of the loop over \<^verbatim>\<open>required_pairings\<close>; when a player is not found
  the script prints a warning and goes on.
\<close>

fun required_step_v2 :: "player_v2 list \<Rightarrow> best_state \<Rightarrow> string \<times> string \<Rightarrow> best_state" where
  "required_step_v2 top_players (best_pairings, used_players) (name1, name2) =
     (case (find_player_v2 top_players name1, find_player_v2 top_players name2) of
        (Some p1, Some p2) \<Rightarrow>
          (best_pairings @ [((p1, p2), calculate_pairing_score p1 p2)],
           insert name2 (insert name1 used_players))
      | _ \<Rightarrow> (best_pairings, used_players))"

text \<open>
  One iteration of the loop over \<^verbatim>\<open>matt_options\<close>, on \<^verbatim>\<open>best_matt_pair\<close> and
  \<^verbatim>\<open>best_matt_score\<close>.
\<close>

type_synonym matt_state = "(player_v2 \<times> player_v2 \<times> string \<times> string) option \<times> real"

fun matt_step :: "player_v2 list \<Rightarrow> string set \<Rightarrow> matt_state \<Rightarrow> string \<times> string \<Rightarrow> matt_state" where
  "matt_step top_players used_players (best_matt_pair, best_matt_score) (name1, name2) =
     (case (find_player_v2 top_players name1, find_player_v2 top_players name2) of
        (Some p1, Some p2) \<Rightarrow>
          if name1 \<notin> used_players \<and> name2 \<notin> used_players then
            (let score = calculate_pairing_score p1 p2
             in if score > best_matt_score then (Some (p1, p2, name1, name2), score)
                else (best_matt_pair, best_matt_score))
          else (best_matt_pair, best_matt_score)
      | _ \<Rightarrow> (best_matt_pair, best_matt_score))"

text \<open>
  The score an option of the Matt constraint competes with: the pairing score of the two
  players when both are found and neither is used, nothing otherwise.
\<close>

definition matt_option_score :: "player_v2 list \<Rightarrow> string set \<Rightarrow> string \<times> string \<Rightarrow> real option" where
  "matt_option_score top_players used_players opt =
     (case opt of (name1, name2) \<Rightarrow>
        (case (find_player_v2 top_players name1, find_player_v2 top_players name2) of
           (Some p1, Some p2) \<Rightarrow>
             if name1 \<notin> used_players \<and> name2 \<notin> used_players
             then Some (calculate_pairing_score p1 p2) else None
         | _ \<Rightarrow> None))"

definition matt_constraint :: "player_v2 list \<Rightarrow> (string \<times> string) list \<Rightarrow> best_state \<Rightarrow> best_state" where
  "matt_constraint top_players options st =
     (case st of (best_pairings, used_players) \<Rightarrow>
        (case foldl (matt_step top_players used_players) (None, - 1) options of
           (Some (p1, p2, name1, name2), best_matt_score) \<Rightarrow>
             (best_pairings @ [((p1, p2), best_matt_score)],
              insert name2 (insert name1 used_players))
         | (None, _) \<Rightarrow> (best_pairings, used_players)))"

text \<open>\<^verbatim>\<open>itertools.combinations(xs, 2)\<close>: the pairs of positions \<open>i < j\<close>, in order.\<close>

fun combinations2 :: "'a list \<Rightarrow> ('a \<times> 'a) list" where
  "combinations2 [] = []"
| "combinations2 (x # xs) = map (Pair x) xs @ combinations2 xs"

text \<open>
  A row of the output: the position (from 1), the status, the anchor (the player of the
  pair with the lower handicap index, the first one on a tie), the gunner and the pair's
  score. The CSV file holds the score rounded to two decimals.
\<close>

type_synonym row_v2 = "nat \<times> string \<times> player_v2 \<times> player_v2 \<times> real"

definition make_row_v2 :: "nat \<times> (player_v2 \<times> player_v2) \<times> real \<Rightarrow> row_v2" where
  "make_row_v2 x =
     (case x of (i, (p1, p2), score) \<Rightarrow>
        (let (anchor, gunner) = (if hi p1 \<le> hi p2 then (p1, p2) else (p2, p1));
             status = (if i \<le> 8 then ''PLAY'' else ''RESERVE'')
         in (i, status, anchor, gunner, score)))"

text \<open>
  The run from the list \<^verbatim>\<open>top_players\<close> on. The median of an empty list raises
  \<^verbatim>\<open>IndexError\<close>; with no row at all the score summary divides by zero.
\<close>

definition generate_pairings_v2 :: "player_v2 list \<Rightarrow> py_error + row_v2 list" where
  "generate_pairings_v2 top_players =
     (if top_players = [] then Inl IndexError
      else
        (case matt_constraint top_players matt_options
                (foldl (required_step_v2 top_players) ([], {}) required_pairings) of
           (best_pairings, used_players) \<Rightarrow>
             (let remaining_pairs = 12 - length best_pairings;
                  available_players = filter (\<lambda>p. name p \<notin> used_players) top_players;
                  all_possible_pairs =
                    sort_key (\<lambda>t. - snd (snd t))
                      (map (\<lambda>(p1, p2). (p1, p2, calculate_pairing_score p1 p2))
                         (combinations2 available_players))
              in case find_balanced_pairings remaining_pairs all_possible_pairs of
                   Inl e \<Rightarrow> Inl e
                 | Inr balanced_pairs \<Rightarrow>
                     (let best_pairings =
                            best_pairings @ map (\<lambda>(p1, p2, score). ((p1, p2), score)) balanced_pairs;
                          best_pairings = sort_key (\<lambda>x. - snd x) best_pairings;
                          rows = map make_row_v2
                                   (zip [1 ..< Suc (length best_pairings)] best_pairings)
                      in if rows = [] then Inl ZeroDivisionError else Inr rows))))"

text \<open>The names in the rows, row by row.\<close>

definition row_names_v2 :: "row_v2 list \<Rightarrow> string list" where
  "row_names_v2 rows =
     concat (map (\<lambda>r. case r of (i, status, anchor, gunner, score) \<Rightarrow> [name anchor, name gunner]) rows)"

text \<open>The same for the intermediate lists of the run.\<close>

definition bp_names :: "((player_v2 \<times> player_v2) \<times> real) list \<Rightarrow> string list" where
  "bp_names bps = concat (map (\<lambda>x. [name (fst (fst x)), name (snd (fst x))]) bps)"

definition sp_names :: "scored_pair list \<Rightarrow> string list" where
  "sp_names sel = concat (map (\<lambda>t. [name (fst t), name (fst (snd t))]) sel)"

text \<open>
  A scored pair over a set of names: two players of different names, both in the set.
\<close>

definition well_formed_pair :: "string set \<Rightarrow> scored_pair \<Rightarrow> bool" where
  "well_formed_pair N t
     \<longleftrightarrow> name (fst t) \<noteq> name (fst (snd t)) \<and> name (fst t) \<in> N \<and> name (fst (snd t)) \<in> N"

section \<open>generate\_pairings\_v3.py: required pairings and the HOME and AWAY teams\<close>

text \<open>
  The players of version 3 carry a combined value score (players without one are dropped
  before the selection) and the flag \<^verbatim>\<open>can_play_home\<close>. A pairing is the dict that
  \<^verbatim>\<open>make_pairing\<close> builds.
\<close>

record player_v3 = player +
  cvs :: real
  can_play_home :: bool

record pairing_v3 =
  anchor :: player_v3
  gunner :: player_v3
  pair_cvs :: real
  hi_spread :: real
  committed_count :: nat
  can_play_home :: bool
  constraint :: string

definition REQUIRED_PAIRINGS_v3 :: "(string \<times> string) list" where
  "REQUIRED_PAIRINGS_v3 =
     [(''Greg Park'', ''Hugo Lamprecht''),
      (''Jacques vd Berg'', ''Brandon Bester''),
      (''Ian Scott'', ''Matt Maritz'')]"

definition find_player_v3 :: "string \<Rightarrow> player_v3 list \<Rightarrow> player_v3 option" where
  "find_player_v3 n player_list = List.find (\<lambda>p. name p = n) player_list"

definition make_pairing :: "player_v3 \<Rightarrow> player_v3 \<Rightarrow> string \<Rightarrow> pairing_v3" where
  "make_pairing a g constraint_type =
     \<lparr>anchor = a, gunner = g,
      pair_cvs = cvs a + cvs g,
      hi_spread = \<bar>hi a - hi g\<bar>,
      committed_count = length (filter (\<lambda>p. commitment p = ''Full'') [a, g]),
      can_play_home = player_v3.can_play_home a \<and> player_v3.can_play_home g,
      constraint = constraint_type\<rparr>"

text \<open>
  One iteration of the loop over \<^verbatim>\<open>REQUIRED_PAIRINGS\<close>, on \<^verbatim>\<open>pairings\<close> and
  \<^verbatim>\<open>used_players\<close>. The player with the lower handicap index is the anchor. When a
  player is not found, the script prints a warning and goes on.
\<close>

type_synonym state_v3 = "pairing_v3 list \<times> string set"

fun required_step_v3 :: "player_v3 list \<Rightarrow> state_v3 \<Rightarrow> string \<times> string \<Rightarrow> state_v3" where
  "required_step_v3 selected (pairings, used_players) (name1, name2) =
     (case (find_player_v3 name1 selected, find_player_v3 name2 selected) of
        (Some p1, Some p2) \<Rightarrow>
          (let (a, g) = (if hi p1 < hi p2 then (p1, p2) else (p2, p1))
           in (pairings @ [make_pairing a g ''REQUIRED''],
               insert (name g) (insert (name a) used_players)))
      | _ \<Rightarrow> (pairings, used_players))"

text \<open>
  The remaining players, split at the middle of the handicap order, each half sorted by
  score, best first; the \<open>i\<close>-th anchor is paired with the \<open>i\<close>-th gunner until eight
  pairs exist.
\<close>

definition auto_pairings :: "player_v3 list \<Rightarrow> state_v3 \<Rightarrow> pairing_v3 list" where
  "auto_pairings selected st =
     (case st of (pairings, used_players) \<Rightarrow>
        (let remaining = sort_key hi (filter (\<lambda>p. name p \<notin> used_players) selected);
             mid = length remaining div 2;
             anchors = sort_key (\<lambda>p. - cvs p) (take mid remaining);
             gunners = sort_key (\<lambda>p. - cvs p) (drop mid remaining);
             remaining_pairs = 8 - length pairings
         in pairings
            @ map (\<lambda>(a, g). make_pairing a g ''AUTO'')
                (zip (take remaining_pairs anchors) (take remaining_pairs gunners))))"

text \<open>
  The order of the final list: the four best HOME-eligible pairs, then the AWAY-only
  pairs, then the other HOME-eligible pairs. Pairs 1 to 4 play HOME, the others AWAY.
\<close>

definition order_pairings :: "pairing_v3 list \<Rightarrow> pairing_v3 list" where
  "order_pairings pairings =
     (let home_eligible = sort_key (\<lambda>p. - pair_cvs p) (filter (\<lambda>p. can_play_home p) pairings);
          away_only_pairs =
            sort_key (\<lambda>p. - pair_cvs p) (filter (\<lambda>p. \<not> can_play_home p) pairings)
      in take 4 home_eligible @ away_only_pairs @ drop 4 home_eligible)"

definition location :: "nat \<Rightarrow> string" where
  "location i = (if i \<le> 4 then ''HOME'' else ''AWAY'')"

type_synonym row_v3 = "nat \<times> string \<times> pairing_v3"

text \<open>
  The run from the selected players on. The list \<^verbatim>\<open>selected\<close> is sorted by handicap
  index and its middle element read, which raises \<^verbatim>\<open>IndexError\<close> for an empty
  selection; the first split into anchors and gunners is only printed.
\<close>

definition generate_pairings_v3 :: "player_v3 list \<Rightarrow> py_error + row_v3 list" where
  "generate_pairings_v3 selected0 =
     (let selected = sort_key hi selected0
      in if selected = [] then Inl IndexError
         else
           (let pairings = order_pairings
                  (auto_pairings selected
                     (foldl (required_step_v3 selected) ([], {}) REQUIRED_PAIRINGS_v3))
            in Inr (map (\<lambda>(i, p). (i, location i, p))
                      (zip [1 ..< Suc (length pairings)] pairings))))"

section \<open>Concrete inputs used in the instances below\<close>

definition ch_A :: "(string \<times> real) list" where
  "ch_A = [(''A1'', 5), (''A2'', 20), (''B1'', 25), (''B2'', 8)]"

definition score_A :: "(string \<times> real) list" where
  "score_A = [(''A1'', 9), (''A2'', 4), (''B1'', 8), (''B2'', 3)]"

definition anchors10 :: "string list" where
  "anchors10 = [''A0'', ''A1'', ''A2'', ''A3'', ''A4'', ''A5'', ''A6'', ''A7'', ''A8'', ''A9'']"

definition gunners10 :: "string list" where
  "gunners10 = [''G0'', ''G1'', ''G2'', ''G3'', ''G4'', ''G5'', ''G6'', ''G7'', ''G8'', ''G9'']"


definition row_A1 :: player_row where
  "row_A1 = \<lparr>Player_Name = ''A1'', Combined_Value_Score = 9\<rparr>"

definition row_A2 :: player_row where
  "row_A2 = \<lparr>Player_Name = ''A2'', Combined_Value_Score = 4\<rparr>"

definition row_B1 :: player_row where
  "row_B1 = \<lparr>Player_Name = ''B1'', Combined_Value_Score = 8\<rparr>"

definition row_B2 :: player_row where
  "row_B2 = \<lparr>Player_Name = ''B2'', Combined_Value_Score = 3\<rparr>"

definition row_Greg :: player_row where
  "row_Greg = \<lparr>Player_Name = ''Greg Park'', Combined_Value_Score = 7\<rparr>"

definition row_Hugo :: player_row where
  "row_Hugo = \<lparr>Player_Name = ''Hugo Lamprecht'', Combined_Value_Score = 6\<rparr>"

definition row_Gerdus :: player_row where
  "row_Gerdus = \<lparr>Player_Name = ''Gerdus Theron'', Combined_Value_Score = 8\<rparr>"

definition row_Jacques :: player_row where
  "row_Jacques = \<lparr>Player_Name = ''Jacques vd Berg'', Combined_Value_Score = 7\<rparr>"

definition row_Ian :: player_row where
  "row_Ian = \<lparr>Player_Name = ''Ian Scott'', Combined_Value_Score = 1\<rparr>"

definition row_Grant :: player_row where
  "row_Grant = \<lparr>Player_Name = ''Grant Syme'', Combined_Value_Score = 5\<rparr>"

definition row_Matt :: player_row where
  "row_Matt = \<lparr>Player_Name = ''Matt Maritz'', Combined_Value_Score = 4\<rparr>"

text \<open>Players for the balance heuristic, and two lists of scored pairs, best first.\<close>

definition pl :: "string \<Rightarrow> player_v2" where
  "pl n = \<lparr>name = n, hi = 10, commitment = ''Full'', combined_score = None, matchplay = None\<rparr>"



definition player2 :: "string \<Rightarrow> real \<Rightarrow> real \<Rightarrow> player_v2" where
  "player2 n h c =
     \<lparr>name = n, hi = h, commitment = ''Full'', combined_score = Some c, matchplay = None\<rparr>"

definition score_M :: "(string \<times> real) list" where
  "score_M = [(''Ian Scott'', 1), (''Grant Syme'', 5), (''Matt Maritz'', 4)]"

definition players_M :: "player_v2 list" where
  "players_M =
     [player2 ''Matt Maritz'' 10 4, player2 ''Grant Syme'' 10 1, player2 ''Ian Scott'' 10 5]"

definition players_six :: "player_v2 list" where
  "players_six = players_M @ [player2 ''X'' 4 3, player2 ''Y'' 16 2, player2 ''Z'' 22 6]"

text \<open>Players of version 3: sixteen selected players, five of them AWAY-only.\<close>

definition player3 :: "string \<Rightarrow> real \<Rightarrow> real \<Rightarrow> bool \<Rightarrow> player_v3" where
  "player3 n h c b = \<lparr>name = n, hi = h, commitment = ''Full'', cvs = c, can_play_home = b\<rparr>"

definition selected16 :: "player_v3 list" where
  "selected16 =
     [player3 ''P01'' 1 16 True, player3 ''P02'' 2 15 True, player3 ''P03'' 3 14 True,
      player3 ''P04'' 4 13 False, player3 ''P05'' 5 12 False, player3 ''P06'' 6 11 False,
      player3 ''P07'' 7 10 False, player3 ''P08'' 8 9 False,
      player3 ''P09'' 9 8 True, player3 ''P10'' 10 7 True, player3 ''P11'' 11 6 True,
      player3 ''P12'' 12 5 True, player3 ''P13'' 13 4 True, player3 ''P14'' 14 3 True,
      player3 ''P15'' 15 2 True, player3 ''P16'' 16 1 True]"

definition selected_Greg :: "player_v3 list" where
  "selected_Greg = [player3 ''Greg Park'' 5 9 True, player3 ''Piet'' 12 8 True]"

definition selected_Greg_Hugo :: "player_v3 list" where
  "selected_Greg_Hugo =
     [player3 ''Greg Park'' 15 9 True, player3 ''Piet'' 12 8 True,
      player3 ''Hugo Lamprecht'' 10 7 True, player3 ''Koos'' 3 6 True]"

definition players_GH :: "player_v2 list" where
  "players_GH = [player2 ''Greg Park'' 15 9, player2 ''Hugo Lamprecht'' 10 7]"

definition anchors8 :: "player_v3 list" where
  "anchors8 =
     [player3 ''P01'' 1 16 True, player3 ''P02'' 2 15 True, player3 ''P03'' 3 14 True,
      player3 ''P04'' 4 13 False, player3 ''P05'' 5 12 False, player3 ''P06'' 6 11 False,
      player3 ''P07'' 7 10 False, player3 ''P08'' 8 9 False]"

definition gunners8 :: "player_v3 list" where
  "gunners8 =
     [player3 ''P09'' 9 8 True, player3 ''P10'' 10 7 True, player3 ''P11'' 11 6 True,
      player3 ''P12'' 12 5 True, player3 ''P13'' 13 4 True, player3 ''P14'' 14 3 True,
      player3 ''P15'' 15 2 True, player3 ''P16'' 16 1 True]"

definition pairs16 :: "pairing_v3 list" where
  "pairs16 =
     [make_pairing (player3 ''P01'' 1 16 True) (player3 ''P09'' 9 8 True) ''AUTO'',
      make_pairing (player3 ''P02'' 2 15 True) (player3 ''P10'' 10 7 True) ''AUTO'',
      make_pairing (player3 ''P03'' 3 14 True) (player3 ''P11'' 11 6 True) ''AUTO'',
      make_pairing (player3 ''P04'' 4 13 False) (player3 ''P12'' 12 5 True) ''AUTO'',
      make_pairing (player3 ''P05'' 5 12 False) (player3 ''P13'' 13 4 True) ''AUTO'',
      make_pairing (player3 ''P06'' 6 11 False) (player3 ''P14'' 14 3 True) ''AUTO'',
      make_pairing (player3 ''P07'' 7 10 False) (player3 ''P15'' 15 2 True) ''AUTO'',
      make_pairing (player3 ''P08'' 8 9 False) (player3 ''P16'' 16 1 True) ''AUTO'']"

section \<open>Properties of the library functions and of the exact search\<close>

lemma score_assignment_valid:
  "score_assignment ch sc ps t = (True, t') \<Longrightarrow> (a, g) \<in> set ps \<Longrightarrow> is_valid_pairing ch a g"
  by (induction ch sc ps t rule: score_assignment.induct) (auto split: if_splits)

lemma selections_mset:
  "(y, ys) \<in> set (selections xs) \<Longrightarrow> mset xs = add_mset y (mset ys)"
  by (induction xs arbitrary: y ys) auto

lemma length_selections: "length (selections xs) = length xs"
  by (induction xs) auto

lemma selections_length:
  "(y, ys) \<in> set (selections xs) \<Longrightarrow> Suc (length ys) = length xs"
  by (induction xs arbitrary: y ys) auto

lemma permutations_r_mset:
  "p \<in> set (permutations_r r xs) \<Longrightarrow> length p = r \<and> mset p \<subseteq># mset xs"
proof (induction r arbitrary: p xs)
  case 0
  then show ?case by simp
next
  case (Suc r)
  then obtain y ys q where sel: "(y, ys) \<in> set (selections xs)"
    and q: "q \<in> set (permutations_r r ys)" and p: "p = y # q"
    by auto
  from Suc.IH [OF q] have "length q = r" "mset q \<subseteq># mset ys" by simp_all
  with selections_mset [OF sel] p show ?case by simp
qed

lemma permutations_mset:
  assumes "p \<in> set (permutations xs)"
  shows "mset p = mset xs"
proof -
  from assms have "length p = length xs" "mset p \<subseteq># mset xs"
    using permutations_r_mset [of p "length xs" xs] by (simp_all add: permutations_def)
  then show ?thesis
    by (metis size_mset subset_mset.eq_iff mset_subset_size subset_mset.less_le nat_neq_iff)
qed

lemma length_permutations_r:
  "length xs = r \<Longrightarrow> length (permutations_r r xs) = fact r"
proof (induction r arbitrary: xs)
  case 0
  then show ?case by simp
next
  case (Suc r)
  have each: "\<forall>s \<in> set (selections xs).
      length (case s of (y, ys) \<Rightarrow> map ((#) y) (permutations_r r ys)) = fact r"
    using Suc.IH selections_length Suc.prems by fastforce
  have "length (permutations_r (Suc r) xs)
      = sum_list (map (\<lambda>s. length (case s of (y, ys) \<Rightarrow> map ((#) y) (permutations_r r ys))) (selections xs))"
    by (simp add: length_concat comp_def)
  also have "\<dots> = sum_list (map (\<lambda>s. fact r) (selections xs))"
    using each by (metis (no_types, lifting) map_eq_conv)
  also have "\<dots> = length xs * fact r"
    by (simp add: sum_list_triv length_selections)
  finally show ?case using Suc.prems by simp
qed

lemma length_permutations: "length (permutations xs) = fact (length xs)"
  by (simp add: permutations_def length_permutations_r)

lemma permutations_r_first:
  "permutations_r (length xs) xs \<noteq> [] \<and> hd (permutations_r (length xs) xs) = xs"
proof (induction xs)
  case Nil
  then show ?case by simp
next
  case (Cons x xs)
  then show ?case by (cases "permutations_r (length xs) xs") (auto simp: hd_append)
qed

lemma permutations_nonempty: "permutations xs \<noteq> []"
  using permutations_r_first [of xs] by (simp add: permutations_def)

lemma permutations_first: "permutations xs ! 0 = xs"
  using permutations_r_first [of xs] hd_conv_nth [of "permutations_r (length xs) xs"]
  by (simp add: permutations_def)

lemma permutations_self: "xs \<in> set (permutations xs)"
  by (metis permutations_first permutations_nonempty length_greater_0_conv nth_mem)

lemma search_step_eq:
  "search_step ch sc as st p =
     (if perm_valid ch sc as p \<and> perm_total ch sc as p > snd st
      then (Some (zip as p), perm_total ch sc as p) else st)"
  by (simp add: search_step_def perm_valid_def perm_total_def split: prod.splits)

lemma perm_valid_pairs:
  "perm_valid ch sc as p \<Longrightarrow> (a, g) \<in> set (zip as p) \<Longrightarrow> is_valid_pairing ch a g"
  using score_assignment_valid [of ch sc "zip as p" 0 "perm_total ch sc as p" a g]
  by (simp add: perm_valid_def perm_total_def prod_eq_iff)

text \<open>
  The loop over the permutations keeps the first feasible permutation whose total is above
  every total seen before it; it starts from \<open>(None, -1)\<close>.
\<close>

lemma foldl_search_inv:
  "foldl (search_step ch sc as) (None, - 1) ps = (r, t) \<Longrightarrow>
     (case r of
        None \<Rightarrow> t = - 1 \<and> (\<forall>p \<in> set ps. \<not> (perm_valid ch sc as p \<and> perm_total ch sc as p > - 1))
      | Some asg \<Rightarrow>
          (\<exists>i < length ps. asg = zip as (ps ! i) \<and> perm_valid ch sc as (ps ! i)
             \<and> perm_total ch sc as (ps ! i) = t \<and> t > - 1
             \<and> (\<forall>j < length ps. perm_valid ch sc as (ps ! j) \<longrightarrow> perm_total ch sc as (ps ! j) \<le> t)
             \<and> (\<forall>j < i. perm_valid ch sc as (ps ! j) \<longrightarrow> perm_total ch sc as (ps ! j) < t)))"
proof (induction ps arbitrary: r t rule: rev_induct)
  case Nil
  then show ?case by simp
next
  case (snoc p ps)
  obtain r0 t0 where st: "foldl (search_step ch sc as) (None, - 1) ps = (r0, t0)"
    by (cases "foldl (search_step ch sc as) (None, - 1) ps")
  note IH = snoc.IH [OF st]
  from snoc.prems st have step: "search_step ch sc as (r0, t0) p = (r, t)" by simp
  show ?case
  proof (cases "perm_valid ch sc as p \<and> perm_total ch sc as p > t0")
    case True
    with step have r: "r = Some (zip as p)" and t: "t = perm_total ch sc as p"
      by (auto simp: search_step_eq)
    have t0: "t0 \<ge> - 1" using IH by (cases r0) auto
    have le: "\<forall>j < length ps. perm_valid ch sc as (ps ! j) \<longrightarrow> perm_total ch sc as (ps ! j) \<le> t0"
      using IH by (cases r0) (auto simp: not_less)
    have "length ps < length (ps @ [p]) \<and> zip as p = zip as ((ps @ [p]) ! length ps)
        \<and> perm_valid ch sc as ((ps @ [p]) ! length ps)
        \<and> perm_total ch sc as ((ps @ [p]) ! length ps) = t \<and> t > - 1
        \<and> (\<forall>j < length (ps @ [p]). perm_valid ch sc as ((ps @ [p]) ! j)
              \<longrightarrow> perm_total ch sc as ((ps @ [p]) ! j) \<le> t)
        \<and> (\<forall>j < length ps. perm_valid ch sc as ((ps @ [p]) ! j)
              \<longrightarrow> perm_total ch sc as ((ps @ [p]) ! j) < t)"
      using True t t0 le by (auto simp: nth_append less_Suc_eq)
    then show ?thesis unfolding r by (simp only: option.case) blast
  next
    case False
    with step have rt: "r = r0" "t = t0" by (auto simp: search_step_eq)
    show ?thesis
    proof (cases r0)
      case None
      with IH False rt show ?thesis by auto
    next
      case (Some asg)
      with IH obtain i where i: "i < length ps" "asg = zip as (ps ! i)"
        "perm_valid ch sc as (ps ! i)" "perm_total ch sc as (ps ! i) = t0" "t0 > - 1"
        "\<forall>j < length ps. perm_valid ch sc as (ps ! j) \<longrightarrow> perm_total ch sc as (ps ! j) \<le> t0"
        "\<forall>j < i. perm_valid ch sc as (ps ! j) \<longrightarrow> perm_total ch sc as (ps ! j) < t0"
        by auto
      have "i < length (ps @ [p]) \<and> asg = zip as ((ps @ [p]) ! i)
        \<and> perm_valid ch sc as ((ps @ [p]) ! i)
        \<and> perm_total ch sc as ((ps @ [p]) ! i) = t \<and> t > - 1
        \<and> (\<forall>j < length (ps @ [p]). perm_valid ch sc as ((ps @ [p]) ! j)
              \<longrightarrow> perm_total ch sc as ((ps @ [p]) ! j) \<le> t)
        \<and> (\<forall>j < i. perm_valid ch sc as ((ps @ [p]) ! j)
              \<longrightarrow> perm_total ch sc as ((ps @ [p]) ! j) < t)"
        using i False rt by (auto simp: nth_append less_Suc_eq not_less)
      then show ?thesis unfolding rt Some by (simp only: option.case) blast
    qed
  qed
qed

lemma exact_search_Some:
  assumes "exact_search ch sc as gs = (Some asg, t)"
  obtains i where "i < length (permutations gs)" "asg = zip as (permutations gs ! i)"
    "perm_valid ch sc as (permutations gs ! i)" "perm_total ch sc as (permutations gs ! i) = t"
    "- 1 < t"
    "\<forall>j < length (permutations gs). perm_valid ch sc as (permutations gs ! j)
        \<longrightarrow> perm_total ch sc as (permutations gs ! j) \<le> t"
    "\<forall>j < i. perm_valid ch sc as (permutations gs ! j)
        \<longrightarrow> perm_total ch sc as (permutations gs ! j) < t"
  using foldl_search_inv [of ch sc as "permutations gs" "Some asg" t] assms
  unfolding exact_search_def by auto

lemma exact_search_None:
  assumes "exact_search ch sc as gs = (None, t)"
  shows "t = - 1"
    and "p \<in> set (permutations gs) \<Longrightarrow> \<not> (perm_valid ch sc as p \<and> perm_total ch sc as p > - 1)"
  using foldl_search_inv [of ch sc as "permutations gs" None t] assms
  unfolding exact_search_def by auto

lemma exact_search_valid:
  assumes "exact_search ch sc as gs = (Some asg, t)" and "(a, g) \<in> set asg"
  shows "is_valid_pairing ch a g"
  using assms by (auto elim!: exact_search_Some dest: perm_valid_pairs)

section \<open>Properties of the constraint steps of generate\_pairings.py\<close>

text \<open>
  Looking a name up in one pool and then in the other finds a row exactly when the name is
  in one of the pools, and the row found carries that name.
\<close>

lemma find_player_Some:
  "find_player df n = Some r \<Longrightarrow> Player_Name r = n \<and> r \<in> set df"
  by (auto simp: find_player_def find_Some_iff)

lemma find_player_None: "find_player df n = None \<longleftrightarrow> n \<notin> Player_Name ` set df"
  by (auto simp: find_player_def find_None_iff)

lemma lookup_pools_Some:
  "(case find_player A n of None \<Rightarrow> find_player B n | Some r \<Rightarrow> Some r) = Some r
     \<Longrightarrow> Player_Name r = n \<and> r \<in> set A \<union> set B"
  by (auto split: option.splits dest: find_player_Some)

lemma lookup_pools_None:
  "(case find_player A n of None \<Rightarrow> find_player B n | Some r \<Rightarrow> Some r) = None
     \<longleftrightarrow> n \<notin> Player_Name ` (set A \<union> set B)"
  by (auto simp: find_player_None image_Un split: option.splits dest!: find_player_Some)

lemma lookup_pools_cases:
  obtains (absent) "n \<notin> Player_Name ` (set A \<union> set B)"
      "(case find_player A n of None \<Rightarrow> find_player B n | Some r \<Rightarrow> Some r) = None"
    | (found) r where "n \<in> Player_Name ` (set A \<union> set B)" "Player_Name r = n"
      "(case find_player A n of None \<Rightarrow> find_player B n | Some r \<Rightarrow> Some r) = Some r"
proof (cases "(case find_player A n of None \<Rightarrow> find_player B n | Some r \<Rightarrow> Some r)")
  case None
  then show ?thesis using absent lookup_pools_None by blast
next
  case (Some r)
  then show ?thesis using found [of r] lookup_pools_Some [OF Some] lookup_pools_None [of A n B]
    by auto
qed

lemma required_step_eq:
  "required_step ta tg (fp, ua, ug) (an, gn) =
     (if an \<in> Player_Name ` (set ta \<union> set tg) \<and> gn \<in> Player_Name ` (set ta \<union> set tg)
      then (fp @ [(an, gn, ''REQUIRED'')], insert an ua, insert gn ug)
      else (fp, ua, ug))"
proof -
  have *: "Player_Name ` (set tg \<union> set ta) = Player_Name ` (set ta \<union> set tg)"
    by (simp add: Un_commute)
  show ?thesis
    by (cases rule: lookup_pools_cases [of an ta tg]; cases rule: lookup_pools_cases [of gn tg ta])
       (simp_all add: *)
qed

lemma try_anchor_options_eq:
  "Player_Name g = gn \<Longrightarrow>
   try_anchor_options ta tg g (fp, ua, ug) options =
     (case List.find (\<lambda>n. n \<in> Player_Name ` (set ta \<union> set tg) \<and> n \<notin> ua) options of
        Some n \<Rightarrow> (fp @ [(n, gn, ''REQUIRED (either/or)'')], insert n ua, insert gn ug)
      | None \<Rightarrow> (fp, ua, ug))"
proof (induction options)
  case Nil
  then show ?case by simp
next
  case (Cons n options)
  then show ?case
    by (cases rule: lookup_pools_cases [of n ta tg]) (simp_all)
qed

lemma either_or_step_eq:
  "either_or_step ta tg (fp, ua, ug) (options, gn) =
     (if gn \<in> Player_Name ` (set ta \<union> set tg) \<and> gn \<notin> ug
      then (case List.find (\<lambda>n. n \<in> Player_Name ` (set ta \<union> set tg) \<and> n \<notin> ua) options of
              Some n \<Rightarrow> (fp @ [(n, gn, ''REQUIRED (either/or)'')], insert n ua, insert gn ug)
            | None \<Rightarrow> (fp, ua, ug))
      else (fp, ua, ug))"
proof -
  have *: "Player_Name ` (set tg \<union> set ta) = Player_Name ` (set ta \<union> set tg)"
    by (simp add: Un_commute)
  show ?thesis
    by (cases rule: lookup_pools_cases [of gn tg ta])
       (simp_all add: * try_anchor_options_eq)
qed

text \<open>
  With the script's own constraint lists, the fixed pairs are determined by which of the
  five named players are in the pools.
\<close>

lemma fixed_pairing_constants:
  fixes ta tg
  defines "P \<equiv> Player_Name ` (set ta \<union> set tg)"
  shows "fixed_pairing REQUIRED_PAIRINGS EITHER_OR_PAIRINGS ta tg =
    (let req = (if ''Greg Park'' \<in> P \<and> ''Hugo Lamprecht'' \<in> P
                then [(''Greg Park'', ''Hugo Lamprecht'', ''REQUIRED'')] else []);
         eo = (if ''Matt Maritz'' \<in> P
               then (if ''Ian Scott'' \<in> P then [(''Ian Scott'', ''Matt Maritz'', ''REQUIRED (either/or)'')]
                     else if ''Grant Syme'' \<in> P then [(''Grant Syme'', ''Matt Maritz'', ''REQUIRED (either/or)'')]
                     else [])
               else [])
     in (req @ eo, fst ` set (req @ eo), (fst \<circ> snd) ` set (req @ eo)))"
  unfolding fixed_pairing_def REQUIRED_PAIRINGS_def EITHER_OR_PAIRINGS_def P_def
  by (auto simp add: required_step_eq either_or_step_eq Let_def
        simp del: required_step.simps either_or_step.simps)


lemma found_entries_Some:
  "found_entries es = Some ps \<Longrightarrow> es = map (\<lambda>(x, y, c, d). (Some x, Some y, c, d)) ps"
  by (induction es arbitrary: ps rule: found_entries.induct) (auto split: option.splits)

lemma set_fixed_names:
  "set (fixed_names fp) = fst ` set fp \<union> (fst \<circ> snd) ` set fp"
  by (induction fp) (auto simp: fixed_names_def)

lemma fixed_pairs_constants:
  assumes "fixed_pairing REQUIRED_PAIRINGS EITHER_OR_PAIRINGS ta tg = (fp, ua, ug)"
  shows "fp \<in> {[], [(''Ian Scott'', ''Matt Maritz'', ''REQUIRED (either/or)'')],
            [(''Grant Syme'', ''Matt Maritz'', ''REQUIRED (either/or)'')],
            [(''Greg Park'', ''Hugo Lamprecht'', ''REQUIRED'')],
            [(''Greg Park'', ''Hugo Lamprecht'', ''REQUIRED''),
             (''Ian Scott'', ''Matt Maritz'', ''REQUIRED (either/or)'')],
            [(''Greg Park'', ''Hugo Lamprecht'', ''REQUIRED''),
             (''Grant Syme'', ''Matt Maritz'', ''REQUIRED (either/or)'')]}"
    and "ua = fst ` set fp" and "ug = (fst \<circ> snd) ` set fp"
proof -
  from assms have fp: "fp = fst (fixed_pairing REQUIRED_PAIRINGS EITHER_OR_PAIRINGS ta tg)"
    and ua: "ua = fst (snd (fixed_pairing REQUIRED_PAIRINGS EITHER_OR_PAIRINGS ta tg))"
    and ug: "ug = snd (snd (fixed_pairing REQUIRED_PAIRINGS EITHER_OR_PAIRINGS ta tg))"
    by simp_all
  show "ua = fst ` set fp" and "ug = (fst \<circ> snd) ` set fp"
    unfolding fp ua ug fixed_pairing_constants Let_def by simp_all
  show "fp \<in> {[], [(''Ian Scott'', ''Matt Maritz'', ''REQUIRED (either/or)'')],
            [(''Grant Syme'', ''Matt Maritz'', ''REQUIRED (either/or)'')],
            [(''Greg Park'', ''Hugo Lamprecht'', ''REQUIRED'')],
            [(''Greg Park'', ''Hugo Lamprecht'', ''REQUIRED''),
             (''Ian Scott'', ''Matt Maritz'', ''REQUIRED (either/or)'')],
            [(''Greg Park'', ''Hugo Lamprecht'', ''REQUIRED''),
             (''Grant Syme'', ''Matt Maritz'', ''REQUIRED (either/or)'')]}"
    unfolding fp fixed_pairing_constants Let_def by simp
qed

lemma fixed_names_constants:
  assumes "fixed_pairing REQUIRED_PAIRINGS EITHER_OR_PAIRINGS ta tg = (fp, ua, ug)"
  shows "distinct (fixed_names fp)" and "set (fixed_names fp) = ua \<union> ug"
proof -
  from fixed_pairs_constants(2,3) [OF assms] show "set (fixed_names fp) = ua \<union> ug"
    by (simp add: set_fixed_names)
  from fixed_pairs_constants(1) [OF assms] show "distinct (fixed_names fp)"
    by (elim insertE emptyE) (simp_all add: fixed_names_def)
qed

lemma fixed_tags:
  assumes "fixed_pairing REQUIRED_PAIRINGS EITHER_OR_PAIRINGS ta tg = (fp, ua, ug)"
    and "(an, gn, c) \<in> set fp"
  shows "c \<noteq> ''AUTO''"
  using fixed_pairs_constants(1) [OF assms(1)] assms(2)
  by (elim insertE emptyE) auto

section \<open>Names in the output of generate\_pairings.py\<close>

lemma found_entries_map: "found_entries es = Some ps \<Longrightarrow> es = map entry_of ps"
  by (induction es arbitrary: ps rule: found_entries.induct)
     (auto simp: entry_of_def split: option.splits)

lemma pair_names_fixed:
  "map entry_of ps = map (fixed_entry ch ta tg) fp
     \<Longrightarrow> pair_names ps = fixed_names fp"
proof (induction fp arbitrary: ps)
  case Nil
  then show ?case by (simp add: pair_names_def fixed_names_def)
next
  case (Cons f fp)
  then obtain p ps' where ps: "ps = p # ps'"
    and p: "entry_of p = fixed_entry ch ta tg f"
    and rest: "map entry_of ps' = map (fixed_entry ch ta tg) fp"
    by (cases ps) auto
  obtain x y c d where pp: "p = (x, y, c, d)" by (cases p)
  obtain an gn c' where f: "f = (an, gn, c')" by (cases f)
  from p pp f
  have "(case find_player ta an of None \<Rightarrow> find_player tg an | Some r \<Rightarrow> Some r) = Some x"
    and "(case find_player tg gn of None \<Rightarrow> find_player ta gn | Some r \<Rightarrow> Some r) = Some y"
    by (simp_all add: fixed_entry_def Let_def entry_of_def)
  then have "Player_Name x = an" "Player_Name y = gn"
    using lookup_pools_Some by blast+
  with Cons.IH [OF rest] ps pp f show ?case
    by (simp add: pair_names_def fixed_names_def)
qed

lemma pair_names_auto:
  "map entry_of ps = map (auto_entry ch ta tg) asg
     \<Longrightarrow> pair_names ps = assignment_names asg"
proof (induction asg arbitrary: ps)
  case Nil
  then show ?case by (simp add: pair_names_def assignment_names_def)
next
  case (Cons f asg)
  then obtain p ps' where ps: "ps = p # ps'"
    and p: "entry_of p = auto_entry ch ta tg f"
    and rest: "map entry_of ps' = map (auto_entry ch ta tg) asg"
    by (cases ps) auto
  obtain x y c d where pp: "p = (x, y, c, d)" by (cases p)
  obtain an gn where f: "f = (an, gn)" by (cases f)
  from p pp f have "find_player ta an = Some x" and "find_player tg gn = Some y"
    by (simp_all add: auto_entry_def entry_of_def)
  then have "Player_Name x = an" "Player_Name y = gn"
    using find_player_Some by blast+
  with Cons.IH [OF rest] ps pp f show ?case
    by (simp add: pair_names_def assignment_names_def)
qed

lemma pair_names_append: "pair_names (ps @ qs) = pair_names ps @ pair_names qs"
  by (simp add: pair_names_def)

lemma pair_names_found:
  assumes "found_entries (map (fixed_entry ch ta tg) fp @ map (auto_entry ch ta tg) asg) = Some ps"
  shows "pair_names ps = fixed_names fp @ assignment_names asg"
proof -
  from found_entries_map [OF assms]
  obtain ps1 ps2 where "ps = ps1 @ ps2"
    "map entry_of ps1 = map (fixed_entry ch ta tg) fp"
    "map entry_of ps2 = map (auto_entry ch ta tg) asg"
    by (auto simp: append_eq_map_conv)
  then show ?thesis
    by (simp add: pair_names_append pair_names_fixed pair_names_auto)
qed

lemma mset_pair_names: "mset ps = mset qs \<Longrightarrow> mset (pair_names ps) = mset (pair_names qs)"
proof -
  have "mset (pair_names xs)
      = sum_mset (image_mset (\<lambda>x. mset (case x of (a, g, _, _) \<Rightarrow>
            [Player_Name a, Player_Name g])) (mset xs))" for xs
    by (induction xs) (simp_all add: pair_names_def)
  then show "mset ps = mset qs \<Longrightarrow> mset (pair_names ps) = mset (pair_names qs)"
    by simp
qed

lemma distinct_pair_names_sort:
  "distinct (pair_names (sort_key f ps)) = distinct (pair_names ps)"
  by (rule mset_eq_imp_distinct_iff, rule mset_pair_names) simp

lemma set_assignment_names:
  "set (assignment_names asg) = fst ` set asg \<union> snd ` set asg"
  by (induction asg) (auto simp: assignment_names_def)

lemma assignment_names_Cons:
  "assignment_names ((a, g) # asg) = a # g # assignment_names asg"
  by (simp add: assignment_names_def)

lemma distinct_assignment_names:
  assumes "distinct (map fst asg)" "distinct (map snd asg)"
    and "fst ` set asg \<inter> snd ` set asg = {}"
  shows "distinct (assignment_names asg)"
  using assms
proof (induction asg)
  case Nil
  then show ?case by (simp add: assignment_names_def)
next
  case (Cons p asg)
  obtain a g where p: "p = (a, g)" by (cases p)
  from Cons.prems p have "a \<notin> fst ` set asg" "g \<notin> snd ` set asg" "a \<noteq> g"
    "a \<notin> snd ` set asg" "g \<notin> fst ` set asg"
    by auto
  moreover from Cons.prems have "distinct (assignment_names asg)"
    by (intro Cons.IH) auto
  ultimately show ?case
    by (simp add: p assignment_names_Cons set_assignment_names)
qed

lemma fallback_greedy_names:
  "distinct as \<Longrightarrow>
     distinct (map fst (fallback_greedy as gs U)) \<and> set (map fst (fallback_greedy as gs U)) \<subseteq> set as
   \<and> distinct (map snd (fallback_greedy as gs U))
   \<and> set (map snd (fallback_greedy as gs U)) \<subseteq> set gs - U"
proof (induction as arbitrary: U)
  case Nil
  then show ?case by simp
next
  case (Cons a as)
  show ?case
  proof (cases "List.find (\<lambda>g. g \<notin> U \<and> g \<notin> set (dict_get EXCLUSIONS a [])) gs")
    case None
    with Cons show ?thesis by auto
  next
    case (Some g)
    then have g: "g \<in> set gs" "g \<notin> U" by (auto simp: find_Some_iff)
    from Cons.prems have d: "distinct as" "a \<notin> set as" by simp_all
    note IH = Cons.IH [OF d(1), of "insert g U"]
    with Some g d show ?thesis by auto
  qed
qed

lemma exact_search_names:
  assumes "exact_search ch sc as gs = (Some asg, t)" "distinct as" "distinct gs"
  shows "distinct (map fst asg) \<and> set (map fst asg) \<subseteq> set as
   \<and> distinct (map snd asg) \<and> set (map snd asg) \<subseteq> set gs"
proof -
  from assms(1) obtain i where i: "i < length (permutations gs)" "asg = zip as (permutations gs ! i)"
    by (elim exact_search_Some) blast
  define p where "p = permutations gs ! i"
  from i have "p \<in> set (permutations gs)" by (simp add: p_def)
  then have m: "mset p = mset gs" by (rule permutations_mset)
  from m assms(3) have dp: "distinct p"
    using mset_eq_imp_distinct_iff [of p gs] by simp
  from m have sp: "set p = set gs" by (rule mset_eq_setD)
  from i(2) have asg: "asg = zip as p" by (simp add: p_def)
  have "map fst asg = take (length p) as" "map snd asg = take (length as) p"
    by (simp_all add: asg map_fst_zip_take map_snd_zip_take min_def)
  with assms(2) dp sp show ?thesis
    by (auto dest: in_set_takeD)
qed

lemma best_assignment_names:
  assumes "distinct as" "distinct gs"
  shows "distinct (map fst (best_assignment ch sc as gs))
   \<and> set (map fst (best_assignment ch sc as gs)) \<subseteq> set as
   \<and> distinct (map snd (best_assignment ch sc as gs))
   \<and> set (map snd (best_assignment ch sc as gs)) \<subseteq> set gs"
proof (cases "exact_search ch sc as gs")
  case (Pair r t)
  show ?thesis
  proof (cases r)
    case None
    with Pair fallback_greedy_names [OF assms(1), of gs "{}"] show ?thesis
      by (auto simp: best_assignment_def)
  next
    case (Some asg)
    with Pair exact_search_names [OF _ assms, of ch sc asg t] show ?thesis
      by (simp add: best_assignment_def)
  qed
qed


lemma remaining_names_props:
  assumes "distinct (map Player_Name pool)"
  shows "distinct (remaining_names pool U)"
    and "set (remaining_names pool U) = Player_Name ` set pool - U"
  using assms by (auto simp: remaining_names_def distinct_map_filter)

lemma generate_pairings_distinct:
  assumes "distinct (map Player_Name (top_anchors @ top_gunners))"
    and "generate_pairings top_anchors top_gunners ch sc = Inr out"
  shows "distinct (pair_names out)"
proof -
  obtain fp ua ug
    where fx: "fixed_pairing REQUIRED_PAIRINGS EITHER_OR_PAIRINGS top_anchors top_gunners = (fp, ua, ug)"
    by (cases "fixed_pairing REQUIRED_PAIRINGS EITHER_OR_PAIRINGS top_anchors top_gunners")
  define U where "U = ua \<union> ug"
  define ras where "ras = remaining_names top_anchors U"
  define rgs where "rgs = remaining_names top_gunners U"
  define asg where "asg = best_assignment ch sc ras rgs"
  have run: "generate_pairings top_anchors top_gunners ch sc =
      (case found_entries (map (fixed_entry ch top_anchors top_gunners) fp
                 @ map (auto_entry ch top_anchors top_gunners) asg) of
         None \<Rightarrow> Inl TypeError
       | Some ps \<Rightarrow> if ps = [] then Inl KeyError else Inr (sort_key (\<lambda>x. - pair_score x) ps))"
    unfolding generate_pairings_def fx asg_def rgs_def ras_def U_def
    by (simp only: Let_def prod.case)
  from assms(2) obtain ps
    where ps: "found_entries (map (fixed_entry ch top_anchors top_gunners) fp
                 @ map (auto_entry ch top_anchors top_gunners) asg) = Some ps"
      and out: "out = sort_key (\<lambda>x. - pair_score x) ps"
    unfolding run by (auto split: option.splits if_splits)
  have names: "pair_names ps = fixed_names fp @ assignment_names asg"
    using ps by (rule pair_names_found)
  from assms(1) have da: "distinct (map Player_Name top_anchors)"
    and dg: "distinct (map Player_Name top_gunners)"
    and disj: "Player_Name ` set top_anchors \<inter> Player_Name ` set top_gunners = {}"
    by auto
  have ras: "distinct ras" "set ras = Player_Name ` set top_anchors - U"
    using remaining_names_props [OF da] by (simp_all add: ras_def)
  have rgs: "distinct rgs" "set rgs = Player_Name ` set top_gunners - U"
    using remaining_names_props [OF dg] by (simp_all add: rgs_def)
  from best_assignment_names [OF ras(1) rgs(1), of ch sc]
  have b: "distinct (map fst asg)" "fst ` set asg \<subseteq> set ras"
    "distinct (map snd asg)" "snd ` set asg \<subseteq> set rgs"
    by (simp_all add: asg_def)
  from b(2,4) ras(2) rgs(2) disj have "fst ` set asg \<inter> snd ` set asg = {}"
    by blast
  with b have d2: "distinct (assignment_names asg)"
    by (intro distinct_assignment_names)
  from b(2,4) ras(2) rgs(2) have "set (assignment_names asg) \<inter> U = {}"
    by (auto simp: set_assignment_names)
  with fixed_names_constants [OF fx] d2 have "distinct (pair_names ps)"
    by (auto simp: names U_def)
  then show ?thesis
    by (simp add: out distinct_pair_names_sort)
qed


text \<open>
  What the search and the fallback do enforce of the exclusions: the gunner of an
  automatic pair is never in the exclusion list of its anchor.
\<close>

lemma fallback_greedy_exclusions:
  "(a, g) \<in> set (fallback_greedy as gs U) \<Longrightarrow> g \<notin> set (dict_get EXCLUSIONS a [])"
proof (induction as arbitrary: U)
  case Nil
  then show ?case by simp
next
  case (Cons x as)
  then show ?case
    by (auto split: option.splits simp: find_Some_iff)
qed

lemma best_assignment_exclusions:
  assumes "(a, g) \<in> set (best_assignment ch sc as gs)"
  shows "g \<notin> set (dict_get EXCLUSIONS a [])"
proof (cases "exact_search ch sc as gs")
  case (Pair r t)
  show ?thesis
  proof (cases r)
    case None
    with Pair assms show ?thesis
      by (auto simp: best_assignment_def dest: fallback_greedy_exclusions)
  next
    case (Some asg)
    with Pair assms have "is_valid_pairing ch a g"
      using exact_search_valid [of ch sc as gs asg t a g] by (simp add: best_assignment_def)
    then show ?thesis
      by (auto simp: is_valid_pairing_def split: if_splits)
  qed
qed

section \<open>Properties of the constraint steps of generate\_pairings\_v2.py\<close>

text \<open>
  The loop over the Matt options keeps the first option whose score is above every score
  seen before it; it starts from \<open>(None, -1)\<close>.
\<close>

lemma matt_step_eq:
  "matt_step tp used (r, s) opt =
     (case matt_option_score tp used opt of
        None \<Rightarrow> (r, s)
      | Some sc \<Rightarrow>
          if sc > s
          then (Some (the (find_player_v2 tp (fst opt)), the (find_player_v2 tp (snd opt)),
                      fst opt, snd opt), sc)
          else (r, s))"
  by (cases opt) (auto simp: matt_option_score_def Let_def split: option.splits)

lemma matt_fold_inv:
  "foldl (matt_step tp used) (None, - 1) opts = (r, s) \<Longrightarrow>
     (case r of
        None \<Rightarrow> s = - 1 \<and> (\<forall>opt \<in> set opts. \<forall>sc. matt_option_score tp used opt = Some sc \<longrightarrow> sc \<le> - 1)
      | Some (p1, p2, n1, n2) \<Rightarrow>
          (n1, n2) \<in> set opts \<and> find_player_v2 tp n1 = Some p1 \<and> find_player_v2 tp n2 = Some p2
          \<and> matt_option_score tp used (n1, n2) = Some s \<and> - 1 < s
          \<and> (\<forall>opt \<in> set opts. \<forall>sc. matt_option_score tp used opt = Some sc \<longrightarrow> sc \<le> s))"
proof (induction opts arbitrary: r s rule: rev_induct)
  case Nil
  then show ?case by simp
next
  case (snoc opt opts)
  obtain r0 s0 where st: "foldl (matt_step tp used) (None, - 1) opts = (r0, s0)"
    by (cases "foldl (matt_step tp used) (None, - 1) opts")
  note IH = snoc.IH [OF st]
  from snoc.prems st have step: "matt_step tp used (r0, s0) opt = (r, s)" by simp
  have s0: "- 1 \<le> s0" using IH by (cases r0) auto
  have le: "\<forall>o' \<in> set opts. \<forall>sc. matt_option_score tp used o' = Some sc \<longrightarrow> sc \<le> s0"
    using IH by (cases r0) auto
  show ?case
  proof (cases "matt_option_score tp used opt")
    case None
    with step have "r = r0" "s = s0" by (simp_all add: matt_step_eq)
    with IH None show ?thesis by (cases r0) auto
  next
    case (Some sc)
    obtain n1 n2 where opt: "opt = (n1, n2)" by (cases opt)
    from Some opt obtain p1 p2 where f: "find_player_v2 tp n1 = Some p1" "find_player_v2 tp n2 = Some p2"
      by (auto simp: matt_option_score_def split: option.splits if_splits)
    show ?thesis
    proof (cases "sc > s0")
      case True
      with step Some opt f have "r = Some (p1, p2, n1, n2)" "s = sc"
        by (simp_all add: matt_step_eq)
      with True Some opt f s0 le show ?thesis by fastforce
    next
      case False
      with step Some have "r = r0" "s = s0" by (simp_all add: matt_step_eq)
      with IH False Some show ?thesis by (cases r0) auto
    qed
  qed
qed


section \<open>Names in the output of generate\_pairings\_v2.py\<close>

lemma find_player_v2_Some:
  "find_player_v2 tp n = Some p \<Longrightarrow> name p = n \<and> p \<in> set tp"
  by (auto simp: find_player_v2_def find_Some_iff)

lemma bp_names_append: "bp_names (xs @ ys) = bp_names xs @ bp_names ys"
  by (simp add: bp_names_def)

lemma sp_names_append: "sp_names (xs @ ys) = sp_names xs @ sp_names ys"
  by (simp add: sp_names_def)

lemma required_v2_names:
  assumes "foldl (required_step_v2 tp) ([], {}) required_pairings = (bp, used)"
  shows "distinct (bp_names bp) \<and> set (bp_names bp) = used"
proof (cases "find_player_v2 tp ''Greg Park''")
  case None
  with assms show ?thesis by (auto simp: required_pairings_def bp_names_def)
next
  case g: (Some p1)
  show ?thesis
  proof (cases "find_player_v2 tp ''Hugo Lamprecht''")
    case None
    with assms g show ?thesis by (auto simp: required_pairings_def bp_names_def)
  next
    case (Some p2)
    from find_player_v2_Some [OF g] find_player_v2_Some [OF Some]
    have "name p1 = ''Greg Park''" "name p2 = ''Hugo Lamprecht''" by simp_all
    with assms g Some show ?thesis by (auto simp: required_pairings_def bp_names_def)
  qed
qed

lemma matt_constraint_names:
  assumes "matt_constraint tp opts (bp, used) = (bp', used')"
    and "distinct (bp_names bp)" and "set (bp_names bp) = used"
    and "\<forall>(n1, n2) \<in> set opts. n1 \<noteq> n2"
  shows "distinct (bp_names bp') \<and> set (bp_names bp') = used'"
proof -
  obtain r s where fold: "foldl (matt_step tp used) (None, - 1) opts = (r, s)"
    by (cases "foldl (matt_step tp used) (None, - 1) opts")
  note inv = matt_fold_inv [OF fold]
  show ?thesis
  proof (cases r)
    case None
    with fold assms show ?thesis by (simp add: matt_constraint_def)
  next
    case (Some q)
    obtain p1 p2 n1 n2 where q: "q = (p1, p2, n1, n2)" by (cases q)
    from inv Some q have i: "(n1, n2) \<in> set opts" "find_player_v2 tp n1 = Some p1"
      "find_player_v2 tp n2 = Some p2" "matt_option_score tp used (n1, n2) = Some s"
      by auto
    from i(4) i(2,3) have free: "n1 \<notin> used" "n2 \<notin> used"
      by (auto simp: matt_option_score_def split: if_splits)
    from i(1) assms(4) have ne: "n1 \<noteq> n2" by auto
    from find_player_v2_Some [OF i(2)] find_player_v2_Some [OF i(3)]
    have nm: "name p1 = n1" "name p2 = n2" by simp_all
    from fold Some q assms(1) have "bp' = bp @ [((p1, p2), s)]"
      and "used' = insert n2 (insert n1 used)"
      by (simp_all add: matt_constraint_def)
    with assms(2,3) free ne nm show ?thesis
      by (auto simp: bp_names_append bp_names_def)
  qed
qed

lemma combinations2_names:
  assumes "distinct (map name xs)" and "(p1, p2) \<in> set (combinations2 xs)"
  shows "p1 \<in> set xs \<and> p2 \<in> set xs \<and> name p1 \<noteq> name p2"
  using assms by (induction xs) auto

lemma pair_free_names:
  "pair_free used t \<longleftrightarrow> name (fst t) \<notin> used \<and> name (fst (snd t)) \<notin> used"
  by (cases t) (simp add: pair_free_def)

lemma pair_used_names:
  "pair_used used t = insert (name (fst (snd t))) (insert (name (fst t)) used)"
  by (cases t) (simp add: pair_used_def)

lemma select_step_names:
  assumes "well_formed_pair N t" "pair_free used t"
    and "distinct (sp_names selected)" "set (sp_names selected) \<subseteq> used"
    "set (sp_names selected) \<subseteq> N"
  shows "distinct (sp_names (selected @ [t]))"
    and "set (sp_names (selected @ [t])) \<subseteq> pair_used used t"
    and "set (sp_names (selected @ [t])) \<subseteq> N"
  using assms
  by (auto simp: sp_names_append well_formed_pair_def pair_free_names pair_used_names sp_names_def)

lemma pure_greedy_loop_names:
  assumes "\<forall>t \<in> set ts. well_formed_pair N t"
    and "distinct (sp_names selected)" "set (sp_names selected) \<subseteq> used"
    "set (sp_names selected) \<subseteq> N"
  shows "distinct (sp_names (pure_greedy_loop n ts selected used))
       \<and> set (sp_names (pure_greedy_loop n ts selected used)) \<subseteq> N"
  using assms
proof (induction ts arbitrary: selected used)
  case Nil
  then show ?case by simp
next
  case (Cons t ts)
  show ?case
  proof (cases "pair_free used t")
    case False
    with Cons show ?thesis by simp
  next
    case True
    from Cons.prems(1) have wf: "well_formed_pair N t" by simp
    note s = select_step_names [OF wf True Cons.prems(2,3,4)]
    show ?thesis
    proof (cases "length (selected @ [t]) \<ge> n")
      case True
      with \<open>pair_free used t\<close> s show ?thesis by simp
    next
      case False
      from Cons.prems(1) have "\<forall>t \<in> set ts. well_formed_pair N t" by simp
      from Cons.IH [OF this s] False \<open>pair_free used t\<close> show ?thesis by simp
    qed
  qed
qed

lemma greedy_balanced_loop_stop:
  "\<not> (length selected < n \<and> remaining \<noteq> [] \<and> filter (pair_free used) remaining \<noteq> [])
     \<Longrightarrow> greedy_balanced_loop n selected used remaining = selected"
  by (subst greedy_balanced_loop.simps) (auto simp: Let_def)

lemma greedy_balanced_loop_step:
  "length selected < n \<Longrightarrow> filter (pair_free used) remaining \<noteq> [] \<Longrightarrow>
   greedy_balanced_loop n selected used remaining =
     (let t = filter (pair_free used) remaining
                ! pick_index (length selected) (length (filter (pair_free used) remaining))
      in greedy_balanced_loop n (selected @ [t]) (pair_used used t)
           (filter (pair_free (pair_used used t)) remaining))"
  by (subst greedy_balanced_loop.simps) (auto simp: Let_def)

lemma greedy_balanced_loop_names:
  assumes "\<forall>t \<in> set remaining. well_formed_pair N t"
    and "distinct (sp_names selected)" "set (sp_names selected) \<subseteq> used"
    "set (sp_names selected) \<subseteq> N"
  shows "distinct (sp_names (greedy_balanced_loop n selected used remaining))
       \<and> set (sp_names (greedy_balanced_loop n selected used remaining)) \<subseteq> N"
  using assms
proof (induction n selected used remaining rule: greedy_balanced_loop.induct)
  case (1 n selected used remaining)
  show ?case
  proof (cases "length selected < n \<and> remaining \<noteq> [] \<and> filter (pair_free used) remaining \<noteq> []")
    case False
    from greedy_balanced_loop_stop [OF False] "1.prems" show ?thesis by simp
  next
    case True
    define valid where "valid = filter (pair_free used) remaining"
    define idx where "idx = pick_index (length selected) (length valid)"
    define t where "t = valid ! idx"
    define used' where "used' = pair_used used t"
    from True have ne: "valid \<noteq> []" by (simp add: valid_def)
    then have "idx < length valid" by (simp add: idx_def pick_index_less)
    then have tv: "t \<in> set valid" by (simp add: t_def)
    then have tr: "t \<in> set remaining" and tf: "pair_free used t" by (simp_all add: valid_def)
    from tr "1.prems"(1) have wf: "well_formed_pair N t" by simp
    note s = select_step_names [OF wf tf "1.prems"(2,3,4)]
    have rem: "\<forall>t \<in> set (filter (pair_free used') remaining). well_formed_pair N t"
      using "1.prems"(1) by simp
    have c: "length selected < n \<and> remaining \<noteq> []" using True by simp
    have IH: "distinct (sp_names (greedy_balanced_loop n (selected @ [t]) used'
                  (filter (pair_free used') remaining)))
       \<and> set (sp_names (greedy_balanced_loop n (selected @ [t]) used'
                  (filter (pair_free used') remaining))) \<subseteq> N"
      by (rule "1.IH" [OF c valid_def ne idx_def t_def used'_def rem s(1) s(2) [folded used'_def] s(3)])
    have "greedy_balanced_loop n selected used remaining
        = greedy_balanced_loop n (selected @ [t]) used' (filter (pair_free used') remaining)"
      using True
      by (simp add: greedy_balanced_loop_step Let_def valid_def idx_def t_def used'_def)
    with IH show ?thesis by simp
  qed
qed


lemma mset_bp_names: "mset xs = mset ys \<Longrightarrow> mset (bp_names xs) = mset (bp_names ys)"
proof -
  have "mset (bp_names zs)
      = sum_mset (image_mset (\<lambda>x. mset [name (fst (fst x)), name (snd (fst x))]) (mset zs))" for zs
    by (induction zs) (simp_all add: bp_names_def)
  then show "mset xs = mset ys \<Longrightarrow> mset (bp_names xs) = mset (bp_names ys)"
    by simp
qed

lemma row_names_v2_Cons:
  "row_names_v2 (r # rs) = (case r of (i, status, a, g, score) \<Rightarrow> [name a, name g]) @ row_names_v2 rs"
  by (simp add: row_names_v2_def)

lemma bp_names_Cons:
  "bp_names (((p1, p2), s) # bps) = [name p1, name p2] @ bp_names bps"
  by (simp add: bp_names_def)

lemma make_row_v2_names:
  "mset (case make_row_v2 (j, (p1, p2), s) of (i, status, a, g, score) \<Rightarrow> [name a, name g])
     = {#name p1, name p2#}"
  by (simp add: make_row_v2_def)

lemma mset_row_names_v2:
  "length js = length bps \<Longrightarrow>
     mset (row_names_v2 (map make_row_v2 (zip js bps))) = mset (bp_names bps)"
proof (induction bps arbitrary: js)
  case Nil
  then show ?case by (simp add: row_names_v2_def bp_names_def)
next
  case (Cons b bps)
  then obtain j js' where js: "js = j # js'" "length js' = length bps"
    by (cases js) auto
  obtain p1 p2 s where b: "b = ((p1, p2), s)" by (cases b) auto
  have "mset (row_names_v2 (map make_row_v2 (zip js' bps))) = mset (bp_names bps)"
    using Cons.IH js(2) by simp
  then show ?case
    by (simp add: js b row_names_v2_Cons bp_names_Cons make_row_v2_names)
qed

lemma bp_names_of_sp: "bp_names (map (\<lambda>(p1, p2, score). ((p1, p2), score)) sel) = sp_names sel"
  by (induction sel) (auto simp: bp_names_def sp_names_def)

lemma find_balanced_pairings_result:
  "find_balanced_pairings n A = Inr sel \<Longrightarrow> sel = greedy_balanced n A \<or> sel = pure_greedy n A"
  by (auto simp: find_balanced_pairings_def Let_def split: sum.splits if_splits)

lemma balanced_names:
  assumes "find_balanced_pairings n A = Inr sel" and "\<forall>t \<in> set A. well_formed_pair N t"
  shows "distinct (sp_names sel) \<and> set (sp_names sel) \<subseteq> N"
proof -
  have e: "distinct (sp_names []) \<and> set (sp_names []) \<subseteq> {} \<and> set (sp_names []) \<subseteq> N"
    by (simp add: sp_names_def)
  from find_balanced_pairings_result [OF assms(1)] show ?thesis
  proof
    assume "sel = greedy_balanced n A"
    then show ?thesis
      using greedy_balanced_loop_names [OF assms(2), of "[]" "{}" n] e
      by (simp add: greedy_balanced_def)
  next
    assume "sel = pure_greedy n A"
    then show ?thesis
      using pure_greedy_loop_names [OF assms(2), of "[]" "{}" n] e
      by (simp add: pure_greedy_def)
  qed
qed

lemma generate_pairings_v2_distinct:
  assumes "distinct (map name top_players)"
    and "generate_pairings_v2 top_players = Inr rows"
  shows "distinct (row_names_v2 rows)"
proof -
  obtain bp1 u1 where req: "foldl (required_step_v2 top_players) ([], {}) required_pairings = (bp1, u1)"
    by (cases "foldl (required_step_v2 top_players) ([], {}) required_pairings")
  obtain bp2 u2 where matt: "matt_constraint top_players matt_options (bp1, u1) = (bp2, u2)"
    by (cases "matt_constraint top_players matt_options (bp1, u1)")
  have "\<forall>(n1, n2) \<in> set matt_options. n1 \<noteq> n2"
    by (simp add: matt_options_def)
  with matt_constraint_names [OF matt] required_v2_names [OF req]
  have bp2: "distinct (bp_names bp2)" "set (bp_names bp2) = u2" by simp_all
  define available where "available = filter (\<lambda>p. name p \<notin> u2) top_players"
  define N where "N = name ` set available"
  define A where "A = sort_key (\<lambda>t. - snd (snd t))
                      (map (\<lambda>(p1, p2). (p1, p2, calculate_pairing_score p1 p2))
                         (combinations2 available))"
  have da: "distinct (map name available)"
    using assms(1) by (simp add: available_def distinct_map_filter)
  have Nu: "N \<inter> u2 = {}" by (auto simp: N_def available_def)
  have wf: "\<forall>t \<in> set A. well_formed_pair N t"
    using combinations2_names [OF da]
    by (auto simp: A_def well_formed_pair_def N_def)
  from assms(2) req matt obtain sel
    where sel: "find_balanced_pairings (12 - length bp2) A = Inr sel"
      and rows: "rows = map make_row_v2
          (zip [1 ..< Suc (length (sort_key (\<lambda>x. - snd x)
                   (bp2 @ map (\<lambda>(p1, p2, score). ((p1, p2), score)) sel)))]
             (sort_key (\<lambda>x. - snd x) (bp2 @ map (\<lambda>(p1, p2, score). ((p1, p2), score)) sel)))"
    by (auto simp: generate_pairings_v2_def Let_def available_def A_def
             split: if_splits sum.splits)
  from balanced_names [OF sel wf] have s: "distinct (sp_names sel)" "set (sp_names sel) \<subseteq> N"
    by simp_all
  define best where "best = bp2 @ map (\<lambda>(p1, p2, score). ((p1, p2), score)) sel"
  have "bp_names best = bp_names bp2 @ sp_names sel"
    by (simp add: best_def bp_names_append bp_names_of_sp)
  with bp2 s Nu have db: "distinct (bp_names best)" by auto
  have "mset (row_names_v2 rows) = mset (bp_names (sort_key (\<lambda>x. - snd x) best))"
    unfolding rows best_def [symmetric] by (rule mset_row_names_v2) (simp del: upt_Suc)
  also have "\<dots> = mset (bp_names best)"
    by (rule mset_bp_names) simp
  finally show ?thesis
    using db mset_eq_imp_distinct_iff by blast
qed


text \<open>
  The required pair of version 2: when both players are found the run completes and a row
  of the output holds the two players.
\<close>

lemma evaluate_total:
  "0 < pairs_needed \<Longrightarrow> \<exists>v m. evaluate pairs_needed sol = Inr (v, m)"
  by (auto simp: evaluate_def Let_def)

lemma find_balanced_pairings_total:
  assumes "0 < n"
  shows "\<exists>sel. find_balanced_pairings n A = Inr sel"
proof -
  from evaluate_total [OF assms] obtain bv bm
    where b: "evaluate n (greedy_balanced n A) = Inr (bv, bm)" by blast
  from evaluate_total [OF assms] obtain gv gm
    where g: "evaluate n (pure_greedy n A) = Inr (gv, gm)" by blast
  show ?thesis
    unfolding find_balanced_pairings_def Let_def b g by simp
qed

lemma required_step_v2_absent:
  assumes "find_player_v2 tp n1 = None \<or> find_player_v2 tp n2 = None"
  shows "required_step_v2 tp st (n1, n2) = st"
  using assms by (cases st) (auto split: option.splits)

lemma matt_constraint_keeps:
  assumes "matt_constraint tp opts (bp, used) = (bp', used')"
  shows "set bp \<subseteq> set bp' \<and> length bp' \<le> Suc (length bp)"
  using assms
  by (auto simp: matt_constraint_def split: prod.splits option.splits)

lemma numbered_rows_v2:
  assumes "((p1, p2), s) \<in> set bps"
  shows "\<exists>i status. (i, status, (if hi p1 \<le> hi p2 then p1 else p2),
                       (if hi p1 \<le> hi p2 then p2 else p1), s)
            \<in> set (map make_row_v2 (zip [1 ..< Suc (length bps)] bps))"
proof -
  from assms obtain k where k: "k < length bps" "bps ! k = ((p1, p2), s)"
    by (auto simp: in_set_conv_nth)
  then have "(Suc k, (p1, p2), s) \<in> set (zip [1 ..< Suc (length bps)] bps)"
    by (auto simp: in_set_zip simp del: upt_Suc intro!: exI [of _ k])
  then have "make_row_v2 (Suc k, (p1, p2), s)
      \<in> make_row_v2 ` set (zip [1 ..< Suc (length bps)] bps)"
    by (rule imageI)
  then have "make_row_v2 (Suc k, (p1, p2), s)
      \<in> set (map make_row_v2 (zip [1 ..< Suc (length bps)] bps))"
    by (simp only: set_map)
  moreover have "make_row_v2 (Suc k, (p1, p2), s)
      = (Suc k, (if Suc k \<le> 8 then ''PLAY'' else ''RESERVE''),
         (if hi p1 \<le> hi p2 then p1 else p2), (if hi p1 \<le> hi p2 then p2 else p1), s)"
    by (simp add: make_row_v2_def)
  ultimately show ?thesis by metis
qed

lemma required_pair_v2:
  assumes "(n1, n2) \<in> set required_pairings"
    and f: "find_player_v2 tp n1 = Some p1" "find_player_v2 tp n2 = Some p2"
  shows "\<exists>rows. generate_pairings_v2 tp = Inr rows
     \<and> (\<exists>i status. (i, status, (if hi p1 \<le> hi p2 then p1 else p2),
                       (if hi p1 \<le> hi p2 then p2 else p1), calculate_pairing_score p1 p2)
            \<in> set rows)"
proof -
  from assms(1) have n: "n1 = ''Greg Park''" "n2 = ''Hugo Lamprecht''"
    by (simp_all add: required_pairings_def)
  define s where "s = calculate_pairing_score p1 p2"
  have req: "foldl (required_step_v2 tp) ([], {}) required_pairings
      = ([((p1, p2), s)], {''Greg Park'', ''Hugo Lamprecht''})"
    using f by (auto simp: required_pairings_def n s_def)
  obtain bp2 u2 where matt: "matt_constraint tp matt_options
      ([((p1, p2), s)], {''Greg Park'', ''Hugo Lamprecht''}) = (bp2, u2)"
    by (cases "matt_constraint tp matt_options ([((p1, p2), s)], {''Greg Park'', ''Hugo Lamprecht''})")
  from matt_constraint_keeps [OF matt] have in2: "((p1, p2), s) \<in> set bp2" and len: "length bp2 \<le> 2"
    by auto
  define A where "A = sort_key (\<lambda>t. - snd (snd t))
                      (map (\<lambda>(p1, p2). (p1, p2, calculate_pairing_score p1 p2))
                         (combinations2 (filter (\<lambda>p. name p \<notin> u2) tp)))"
  from len have "0 < 12 - length bp2" by simp
  from find_balanced_pairings_total [OF this] obtain sel
    where sel: "find_balanced_pairings (12 - length bp2) A = Inr sel" by blast
  define best where "best = sort_key (\<lambda>x. - snd x)
      (bp2 @ map (\<lambda>(p1, p2, score). ((p1, p2), score)) sel)"
  define rows where "rows = map make_row_v2 (zip [Suc 0 ..< Suc (length best)] best)"
  from in2 have inb: "((p1, p2), s) \<in> set best" by (simp add: best_def)
  then have bne: "best \<noteq> []" by auto
  then have "rows \<noteq> []" by (simp add: rows_def del: upt_Suc)
  moreover from f(1) have "tp \<noteq> []" by (auto simp: find_player_v2_def)
  ultimately have "generate_pairings_v2 tp = Inr rows"
    using bne
    by (simp add: generate_pairings_v2_def req matt Let_def A_def [symmetric] sel
          best_def [symmetric] rows_def [symmetric] del: upt_Suc)
  with numbered_rows_v2 [OF inb] show ?thesis
    by (auto simp: rows_def s_def simp del: upt_Suc)
qed

section \<open>Properties of generate\_pairings\_v3.py\<close>

text \<open>
  The loop over the required pairings only adds pairings; the later steps keep them: the
  automatic pairs are appended, and the final order is a rearrangement.
\<close>

lemma required_step_v3_mono:
  "set (fst st) \<subseteq> set (fst (required_step_v3 sel st req))"
  by (cases st; cases req) (auto split: option.splits prod.splits)

lemma required_fold_v3_mono:
  "set (fst st) \<subseteq> set (fst (foldl (required_step_v3 sel) st reqs))"
proof (induction reqs arbitrary: st)
  case Nil
  then show ?case by simp
next
  case (Cons r reqs)
  from required_step_v3_mono [of st sel r] Cons [of "required_step_v3 sel st r"]
  show ?case by auto
qed

lemma required_step_v3_found:
  assumes "find_player_v3 n1 sel = Some p1" "find_player_v3 n2 sel = Some p2"
  shows "make_pairing (if hi p1 < hi p2 then p1 else p2) (if hi p1 < hi p2 then p2 else p1)
           ''REQUIRED'' \<in> set (fst (required_step_v3 sel st (n1, n2)))"
  using assms by (cases st) auto

lemma required_step_v3_absent:
  assumes "find_player_v3 n1 sel = None \<or> find_player_v3 n2 sel = None"
  shows "required_step_v3 sel st (n1, n2) = st"
  using assms by (cases st) (auto split: option.splits)

lemma required_fold_v3_found:
  assumes "(n1, n2) \<in> set reqs"
    and "find_player_v3 n1 sel = Some p1" "find_player_v3 n2 sel = Some p2"
  shows "make_pairing (if hi p1 < hi p2 then p1 else p2) (if hi p1 < hi p2 then p2 else p1)
           ''REQUIRED'' \<in> set (fst (foldl (required_step_v3 sel) st reqs))"
  using assms(1)
proof (induction reqs arbitrary: st)
  case Nil
  then show ?case by simp
next
  case (Cons r reqs)
  show ?case
  proof (cases "r = (n1, n2)")
    case True
    from required_step_v3_found [OF assms(2,3), of st]
      required_fold_v3_mono [of "required_step_v3 sel st (n1, n2)" sel reqs]
    show ?thesis by (auto simp: True)
  next
    case False
    with Cons.prems have "(n1, n2) \<in> set reqs" by simp
    from Cons.IH [OF this] show ?thesis by simp
  qed
qed

lemma auto_pairings_keeps: "set (fst st) \<subseteq> set (auto_pairings sel st)"
  by (cases st) (simp add: auto_pairings_def Let_def)

lemma set_take_drop: "set (take n xs) \<union> set (drop n xs) = set xs"
  by (metis append_take_drop_id set_append)

lemma set_order_pairings: "set (order_pairings ps) = set ps"
proof -
  define h where "h = sort_key (\<lambda>p. - pair_cvs p) (filter (\<lambda>p. can_play_home p) ps)"
  define a where "a = sort_key (\<lambda>p. - pair_cvs p) (filter (\<lambda>p. \<not> can_play_home p) ps)"
  have "set (order_pairings ps) = (set (take 4 h) \<union> set (drop 4 h)) \<union> set a"
    unfolding order_pairings_def Let_def h_def [symmetric] a_def [symmetric] by auto
  also have "\<dots> = set h \<union> set a" by (simp only: set_take_drop)
  also have "\<dots> = set ps" by (auto simp: h_def a_def)
  finally show ?thesis .
qed

lemma numbered_rows:
  assumes "p \<in> set ps"
  shows "\<exists>i. (i, location i, p)
            \<in> set (map (\<lambda>(i, p). (i, location i, p)) (zip [1 ..< Suc (length ps)] ps))"
proof -
  from assms obtain k where k: "k < length ps" "ps ! k = p"
    by (auto simp: in_set_conv_nth)
  then have "(Suc k, p) \<in> set (zip [1 ..< Suc (length ps)] ps)"
    by (auto simp: in_set_zip simp del: upt_Suc intro!: exI [of _ k])
  then have "(\<lambda>(i, p). (i, location i, p)) (Suc k, p)
      \<in> (\<lambda>(i, p). (i, location i, p)) ` set (zip [1 ..< Suc (length ps)] ps)"
    by (rule imageI)
  then have "(Suc k, location (Suc k), p)
      \<in> set (map (\<lambda>(i, p). (i, location i, p)) (zip [1 ..< Suc (length ps)] ps))"
    by (simp only: set_map prod.case)
  then show ?thesis ..
qed


lemma required_pair_v3:
  assumes "selected \<noteq> []" and "(n1, n2) \<in> set REQUIRED_PAIRINGS_v3"
  shows "\<exists>rows. generate_pairings_v3 selected = Inr rows
    \<and> (case (find_player_v3 n1 (sort_key hi selected), find_player_v3 n2 (sort_key hi selected)) of
         (Some p1, Some p2) \<Rightarrow>
           \<exists>i. (i, location i,
                 make_pairing (if hi p1 < hi p2 then p1 else p2) (if hi p1 < hi p2 then p2 else p1)
                   ''REQUIRED'') \<in> set rows
       | _ \<Rightarrow> \<forall>st. required_step_v3 (sort_key hi selected) st (n1, n2) = st)"
proof -
  define sel where "sel = sort_key hi selected"
  define ps where "ps = order_pairings (auto_pairings sel
      (foldl (required_step_v3 sel) ([], {}) REQUIRED_PAIRINGS_v3))"
  define rows where "rows = map (\<lambda>(i, p). (i, location i, p)) (zip [1 ..< Suc (length ps)] ps)"
  from assms(1) have "sel \<noteq> []"
    by (metis sel_def length_sort length_0_conv)
  then have run: "generate_pairings_v3 selected = Inr rows"
    by (simp add: generate_pairings_v3_def Let_def sel_def [symmetric] ps_def [symmetric]
          rows_def del: upt_Suc)
  have "case (find_player_v3 n1 sel, find_player_v3 n2 sel) of
         (Some p1, Some p2) \<Rightarrow>
           \<exists>i. (i, location i,
                 make_pairing (if hi p1 < hi p2 then p1 else p2) (if hi p1 < hi p2 then p2 else p1)
                   ''REQUIRED'') \<in> set rows
       | _ \<Rightarrow> \<forall>st. required_step_v3 sel st (n1, n2) = st"
  proof (cases "find_player_v3 n1 sel")
    case None
    then show ?thesis by (simp add: required_step_v3_absent)
  next
    case s1: (Some p1)
    show ?thesis
    proof (cases "find_player_v3 n2 sel")
      case None
      with s1 show ?thesis by (simp add: required_step_v3_absent)
    next
      case (Some p2)
      from required_fold_v3_found [OF assms(2) s1 Some, of "([], {})"]
      have "make_pairing (if hi p1 < hi p2 then p1 else p2) (if hi p1 < hi p2 then p2 else p1)
           ''REQUIRED'' \<in> set ps"
        using auto_pairings_keeps [of "foldl (required_step_v3 sel) ([], {}) REQUIRED_PAIRINGS_v3" sel]
        by (auto simp: ps_def set_order_pairings)
      from numbered_rows [OF this] s1 Some show ?thesis
        by (simp add: rows_def del: upt_Suc)
    qed
  qed
  with run show ?thesis unfolding sel_def by blast
qed


text \<open>
  With at least four HOME-eligible pairs, the four HOME positions hold HOME-eligible
  pairs.
\<close>

lemma home_slots_with_four_eligible:
  assumes "4 \<le> length (filter (\<lambda>p. can_play_home p) ps)" and "i < 4"
  shows "can_play_home (order_pairings ps ! i)"
proof -
  define h where "h = sort_key (\<lambda>p. - pair_cvs p) (filter (\<lambda>p. can_play_home p) ps)"
  define a where "a = sort_key (\<lambda>p. - pair_cvs p) (filter (\<lambda>p. \<not> can_play_home p) ps)"
  have o: "order_pairings ps = take 4 h @ a @ drop 4 h"
    by (simp add: order_pairings_def Let_def h_def a_def)
  from assms(1) have len: "4 \<le> length h" by (simp add: h_def)
  with assms(2) have "order_pairings ps ! i = h ! i"
    by (simp add: o nth_append)
  moreover from len assms(2) have "h ! i \<in> set h" by simp
  moreover have "\<forall>p \<in> set h. can_play_home p" by (simp add: h_def)
  ultimately show ?thesis by simp
qed

section \<open>Claims about generate\_pairings.py\<close>

lemmas v1_eval = exact_search_def permutations_def search_step_def is_valid_pairing_def
  get_ch_diff_def dict_get_def EXCLUSIONS_def MIN_CH_DIFF_def get_combined_score_def

lemmas v1_run_eval = generate_pairings_def fixed_pairing_constants remaining_names_def
  best_assignment_def auto_entry_def fixed_entry_def pair_score_def find_player_def


text \<open>
  Claim C10. When course-handicap data was loaded (\<open>ch_lookup\<close> is not empty), a player
  absent from the lookup counts as handicap 0 in \<open>get_ch_diff\<close>. For two players both
  absent the difference is 0, \<open>is_valid_pairing\<close> rejects the pair (0 is below
  \<open>MIN_CH_DIFF = 2\<close>), and no assignment returned by the exact search contains the pair.
\<close>

theorem unknown_handicaps_never_paired:
  assumes "ch_lookup \<noteq> []" and "map_of ch_lookup a = None" and "map_of ch_lookup g = None"
  shows "dict_get ch_lookup a 0 = 0 \<and> dict_get ch_lookup g 0 = 0
    \<and> get_ch_diff ch_lookup a g = 0
    \<and> \<not> is_valid_pairing ch_lookup a g
    \<and> (\<forall>sc ras rgs asg t.
          exact_search ch_lookup sc ras rgs = (Some asg, t) \<longrightarrow> (a, g) \<notin> set asg)"
proof -
  have d: "dict_get ch_lookup a 0 = 0" "dict_get ch_lookup g 0 = 0"
    using assms by (simp_all add: dict_get_def)
  then have diff: "get_ch_diff ch_lookup a g = 0"
    by (simp add: get_ch_diff_def)
  with assms(1) have inv: "\<not> is_valid_pairing ch_lookup a g"
    by (simp add: is_valid_pairing_def MIN_CH_DIFF_def)
  then have "\<forall>sc ras rgs asg t.
      exact_search ch_lookup sc ras rgs = (Some asg, t) \<longrightarrow> (a, g) \<notin> set asg"
    using exact_search_valid by blast
  with d diff inv show ?thesis by simp
qed

text \<open>
  An instance: two players with a known handicap and two without. The search pairs each
  unknown player with a known one.
\<close>

theorem unknown_handicaps_never_paired_witness:
  "dict_get [(''A1'', 5), (''B1'', 25::real)] ''U1'' 0 = 0
   \<and> get_ch_diff [(''A1'', 5), (''B1'', 25)] ''U1'' ''U2'' = 0
   \<and> \<not> is_valid_pairing [(''A1'', 5), (''B1'', 25)] ''U1'' ''U2''
   \<and> exact_search [(''A1'', 5), (''B1'', 25)] [] [''A1'', ''U1''] [''B1'', ''U2'']
       = (Some [(''A1'', ''U2''), (''U1'', ''B1'')], 0)
   \<and> (''U1'', ''U2'') \<notin> set [(''A1'', ''U2''), (''U1'', ''B1'')]"
proof -
  have e: "exact_search [(''A1'', 5), (''B1'', 25)] [] [''A1'', ''U1''] [''B1'', ''U2'']
       = (Some [(''A1'', ''U2''), (''U1'', ''B1'')], 0)"
    by (simp add: v1_eval)
  show ?thesis
    using unknown_handicaps_never_paired [of "[(''A1'', 5), (''B1'', 25)]" "''U1''" "''U2''"] e
    by simp
qed




text \<open>
  With no handicap data, no scores and no excluded anchor, every permutation is feasible
  with total 0, so the search returns the first one: the gunners in pool order.
\<close>

lemma score_assignment_no_data:
  "\<forall>(a, g) \<in> set ps. map_of EXCLUSIONS a = None \<Longrightarrow> score_assignment [] [] ps t = (True, t)"
  by (induction ps arbitrary: t)
     (auto simp: is_valid_pairing_def dict_get_def get_combined_score_def)

lemma perm_no_data:
  assumes "\<forall>a \<in> set as. map_of EXCLUSIONS a = None"
  shows "perm_valid [] [] as p" and "perm_total [] [] as p = 0"
proof -
  have "\<forall>(a, g) \<in> set (zip as p). map_of EXCLUSIONS a = None"
    using assms by (auto dest: set_zip_leftD)
  then have "score_assignment [] [] (zip as p) 0 = (True, 0)"
    by (rule score_assignment_no_data)
  then show "perm_valid [] [] as p" and "perm_total [] [] as p = 0"
    by (simp_all add: perm_valid_def perm_total_def)
qed

lemma exact_search_no_data:
  assumes "\<forall>a \<in> set as. map_of EXCLUSIONS a = None"
  shows "exact_search [] [] as gs = (Some (zip as gs), 0)"
proof (cases "exact_search [] [] as gs")
  case (Pair r t)
  show ?thesis
  proof (cases r)
    case None
    with Pair have "\<not> (perm_valid [] [] as gs \<and> perm_total [] [] as gs > - 1)"
      using exact_search_None(2) [OF _ permutations_self] by blast
    with perm_no_data [OF assms] show ?thesis by simp
  next
    case (Some asg)
    with Pair have e: "exact_search [] [] as gs = (Some asg, t)" by simp
    from e obtain i where i: "i < length (permutations gs)" "asg = zip as (permutations gs ! i)"
      "perm_total [] [] as (permutations gs ! i) = t"
      "\<forall>j < i. perm_valid [] [] as (permutations gs ! j)
        \<longrightarrow> perm_total [] [] as (permutations gs ! j) < t"
      by (elim exact_search_Some) blast
    from i(3) have t: "t = 0" using perm_no_data(2) [OF assms] by simp
    have "i = 0"
    proof (rule ccontr)
      assume "i \<noteq> 0"
      then have "0 < i" by simp
      with i(4) perm_no_data [OF assms] t show False by fastforce
    qed
    with i(2) t e show ?thesis by (simp add: permutations_first)
  qed
qed

text \<open>
  Claim C2, as stated, fails. For ten remaining anchors and ten remaining gunners the
  search is not replaced by the fallback: the loop runs over all 3628800 permutations and
  the assignment is the one the search returns.
\<close>

theorem no_size_threshold_counterexample:
  "length gunners10 = 10
   \<and> length (permutations gunners10) = 3628800
   \<and> exact_search [] [] anchors10 gunners10 = (Some (zip anchors10 gunners10), 0)
   \<and> best_assignment [] [] anchors10 gunners10 = zip anchors10 gunners10"
proof -
  have "\<forall>a \<in> set anchors10. map_of EXCLUSIONS a = None"
    by (simp add: anchors10_def EXCLUSIONS_def)
  then have "exact_search [] [] anchors10 gunners10 = (Some (zip anchors10 gunners10), 0)"
    by (rule exact_search_no_data)
  moreover have "length gunners10 = 10" by (simp add: gunners10_def)
  moreover have "fact 10 = (3628800::nat)" by (simp add: fact_numeral)
  ultimately show ?thesis
    by (simp add: length_permutations best_assignment_def)
qed

text \<open>
  Claim C2, amended. The optimizer of generate\_pairings.py has no size threshold: for
  every pool of remaining gunners the search loop runs over all \<open>k!\<close> permutations of the
  \<open>k\<close> gunners; the fallback is used exactly when no permutation is feasible with a total
  above -1, and otherwise the assignment is the search's.
\<close>

theorem search_enumerates_factorial:
  "exact_search ch sc ras rgs
     = foldl (search_step ch sc ras) (None, - 1) (permutations rgs)
   \<and> length (permutations rgs) = fact (length rgs)
   \<and> (fst (exact_search ch sc ras rgs) = None
        \<longleftrightarrow> (\<forall>p \<in> set (permutations rgs). \<not> (perm_valid ch sc ras p \<and> - 1 < perm_total ch sc ras p)))
   \<and> (fst (exact_search ch sc ras rgs) = None
        \<longrightarrow> best_assignment ch sc ras rgs = fallback_greedy ras rgs {})
   \<and> (\<forall>asg. fst (exact_search ch sc ras rgs) = Some asg \<longrightarrow> best_assignment ch sc ras rgs = asg)"
proof -
  have "fst (exact_search ch sc ras rgs) = None
        \<longleftrightarrow> (\<forall>p \<in> set (permutations rgs). \<not> (perm_valid ch sc ras p \<and> - 1 < perm_total ch sc ras p))"
  proof (cases "exact_search ch sc ras rgs")
    case (Pair r t)
    show ?thesis
    proof (cases r)
      case None
      with Pair show ?thesis using exact_search_None(2) [of ch sc ras rgs t] by auto
    next
      case (Some asg)
      with Pair have "exact_search ch sc ras rgs = (Some asg, t)" by simp
      then obtain i where "i < length (permutations rgs)"
        "perm_valid ch sc ras (permutations rgs ! i)"
        "perm_total ch sc ras (permutations rgs ! i) = t" "- 1 < t"
        by (elim exact_search_Some) blast
      then have "\<exists>p \<in> set (permutations rgs). perm_valid ch sc ras p \<and> - 1 < perm_total ch sc ras p"
        using nth_mem by blast
      with Pair Some show ?thesis by auto
    qed
  qed
  moreover have "exact_search ch sc ras rgs
     = foldl (search_step ch sc ras) (None, - 1) (permutations rgs)"
    by (simp add: exact_search_def)
  moreover have "fst (exact_search ch sc ras rgs) = None
        \<longrightarrow> best_assignment ch sc ras rgs = fallback_greedy ras rgs {}"
    by (simp add: best_assignment_def)
  moreover have "\<forall>asg. fst (exact_search ch sc ras rgs) = Some asg
        \<longrightarrow> best_assignment ch sc ras rgs = asg"
    by (simp add: best_assignment_def)
  moreover note length_permutations [of rgs]
  ultimately show ?thesis by blast
qed

theorem search_enumerates_factorial_witness:
  "length (permutations [''B1'', ''B2'', ''B3'']) = 6
   \<and> fst (exact_search [(''A1'', 10), (''B1'', 10), (''B2'', 10), (''B3'', 10)] [] [''A1''] [''B1'', ''B2'', ''B3'']) = None
   \<and> best_assignment [(''A1'', 10), (''B1'', 10), (''B2'', 10), (''B3'', 10)] [] [''A1''] [''B1'', ''B2'', ''B3''] = [(''A1'', ''B1'')]"
  using search_enumerates_factorial [of "[(''A1'', 10), (''B1'', 10), (''B2'', 10), (''B3'', 10)]" "[]" "[''A1'']" "[''B1'', ''B2'', ''B3'']"]
  by (simp add: v1_eval fact_numeral)


text \<open>
  Claim C5, as stated, fails. A required pair is emitted whatever its course-handicap
  difference (here 0, below the threshold 2), and so is a pair of the fallback, taken when
  the search finds no feasible permutation.
\<close>

theorem min_ch_diff_unchecked_counterexample:
  "generate_pairings [row_Greg] [row_Hugo] [(''Greg Park'', 10), (''Hugo Lamprecht'', 10)] []
     = Inr [(row_Greg, row_Hugo, ''REQUIRED'', 0)]
   \<and> generate_pairings [row_A1] [row_B1] [(''A1'', 10), (''B1'', 10)] []
     = Inr [(row_A1, row_B1, ''AUTO'', 0)]
   \<and> (0::real) < MIN_CH_DIFF"
  by (simp add: v1_run_eval v1_eval row_Greg_def row_Hugo_def row_A1_def row_B1_def)

text \<open>
  Claim C5, amended. When course-handicap data is loaded and the exact search finds an
  assignment, every pair of the output tagged \<open>AUTO\<close> has a course-handicap difference
  of at least \<open>MIN_CH_DIFF = 2\<close>. The pairs fixed by the required and either/or steps and
  the pairs of the fallback are not checked against the threshold.
\<close>

theorem auto_pairs_respect_min_ch_diff:
  assumes "generate_pairings ta tg ch sc = Inr out"
    and "ch \<noteq> []"
    and "fixed_pairing REQUIRED_PAIRINGS EITHER_OR_PAIRINGS ta tg = (fp, ua, ug)"
    and "exact_search ch sc (remaining_names ta (ua \<union> ug)) (remaining_names tg (ua \<union> ug))
           = (Some asg, t)"
  shows "\<forall>(x, y, c, d) \<in> set out.
           c = ''AUTO'' \<longrightarrow>
             MIN_CH_DIFF \<le> d \<and> d = get_ch_diff ch (Player_Name x) (Player_Name y)"
proof -
  define es where "es = map (fixed_entry ch ta tg) fp @ map (auto_entry ch ta tg) asg"
  from assms(1,3,4) obtain ps where ps: "found_entries es = Some ps"
    and out: "out = sort_key (\<lambda>x. - pair_score x) ps"
    by (auto simp: generate_pairings_def best_assignment_def es_def Let_def
             split: option.splits if_splits)
  have "MIN_CH_DIFF \<le> d \<and> d = get_ch_diff ch (Player_Name x) (Player_Name y)"
    if "(x, y, ''AUTO'', d) \<in> set ps" for x y d
  proof -
    from that found_entries_Some [OF ps] have "(Some x, Some y, ''AUTO'', d) \<in> set es"
      by force
    then consider (fixed) f where "f \<in> set fp" "fixed_entry ch ta tg f = (Some x, Some y, ''AUTO'', d)"
      | (auto) p where "p \<in> set asg" "auto_entry ch ta tg p = (Some x, Some y, ''AUTO'', d)"
      by (auto simp: es_def)
    then show ?thesis
    proof cases
      case fixed
      then show ?thesis
        using fixed_tags [OF assms(3)] by (auto simp: fixed_entry_def Let_def split: prod.splits)
    next
      case auto
      obtain a g where p: "p = (a, g)" by (cases p)
      with auto have x: "find_player ta a = Some x" and y: "find_player tg g = Some y"
        and d: "d = get_ch_diff ch a g"
        by (auto simp: auto_entry_def)
      from auto(1) p have "is_valid_pairing ch a g"
        using exact_search_valid [OF assms(4)] by simp
      with assms(2) have "MIN_CH_DIFF \<le> get_ch_diff ch a g"
        by (auto simp: is_valid_pairing_def split: if_splits)
      with d find_player_Some [OF x] find_player_Some [OF y] show ?thesis by simp
    qed
  qed
  with out show ?thesis by auto
qed

theorem auto_pairs_respect_min_ch_diff_witness:
  "generate_pairings [row_A1, row_A2] [row_B1, row_B2] ch_A score_A
     = Inr [(row_A1, row_B1, ''AUTO'', 20), (row_A2, row_B2, ''AUTO'', 12)]
   \<and> MIN_CH_DIFF \<le> 20 \<and> MIN_CH_DIFF \<le> 12"
proof -
  have run: "generate_pairings [row_A1, row_A2] [row_B1, row_B2] ch_A score_A
     = Inr [(row_A1, row_B1, ''AUTO'', 20), (row_A2, row_B2, ''AUTO'', 12)]"
    by (simp add: v1_run_eval v1_eval row_A1_def row_A2_def row_B1_def row_B2_def
          ch_A_def score_A_def)
  have ne: "ch_A \<noteq> []" by (simp add: ch_A_def)
  have fx: "fixed_pairing REQUIRED_PAIRINGS EITHER_OR_PAIRINGS [row_A1, row_A2] [row_B1, row_B2]
     = ([], {}, {})"
    by (simp add: fixed_pairing_constants row_A1_def row_A2_def row_B1_def row_B2_def)
  have ex: "exact_search ch_A score_A (remaining_names [row_A1, row_A2] ({} \<union> {}))
       (remaining_names [row_B1, row_B2] ({} \<union> {}))
     = (Some [(''A1'', ''B1''), (''A2'', ''B2'')], 24)"
    by (simp add: remaining_names_def v1_eval row_A1_def row_A2_def row_B1_def row_B2_def
          ch_A_def score_A_def)
  show ?thesis
    using auto_pairs_respect_min_ch_diff [OF run ne fx ex] run by simp
qed

text \<open>
  Claim C4. The exclusion list is keyed by the anchor only. With Gerdus Theron in the
  anchor pool and Jacques vd Berg in the gunner pool, the check passes and the output is
  the pair of the two, although the script's constraint says that Jacques cannot pair with
  Gerdus; the same two players in the other roles are rejected.
\<close>

theorem exclusion_one_direction:
  "generate_pairings [row_Gerdus] [row_Jacques]
       [(''Gerdus Theron'', 5), (''Jacques vd Berg'', 15)] []
     = Inr [(row_Gerdus, row_Jacques, ''AUTO'', 10)]
   \<and> ''Gerdus Theron'' \<in> set (dict_get EXCLUSIONS ''Jacques vd Berg'' [])
   \<and> is_valid_pairing [(''Gerdus Theron'', 5), (''Jacques vd Berg'', 15)]
        ''Gerdus Theron'' ''Jacques vd Berg''
   \<and> \<not> is_valid_pairing [(''Gerdus Theron'', 5), (''Jacques vd Berg'', 15)]
        ''Jacques vd Berg'' ''Gerdus Theron''"
  by (simp add: v1_run_eval v1_eval row_Gerdus_def row_Jacques_def)

section \<open>Claims about generate\_pairings\_v2.py\<close>

lemmas v2_eval = greedy_balanced_def greedy_balanced_loop.simps pure_greedy_def pair_free_def
  pair_used_def pick_index_def pl_def




section \<open>Claims about both generate\_pairings.py and generate\_pairings\_v2.py\<close>

lemmas v2_step_eval = matt_constraint_def matt_options_def find_player_v2_def
  calculate_pairing_score_def player2_def

text \<open>
  Claim C7, as stated, fails. With Ian Scott and Grant Syme both in the anchor pool and
  Matt Maritz in the gunner pool, generate\_pairings.py pairs Matt with Ian, the first
  option declared, although the pair with Grant has the higher combined value (9 against
  5).
\<close>

theorem either_or_first_option_counterexample:
  "generate_pairings [row_Ian, row_Grant] [row_Matt] [] score_M
     = Inr [(row_Ian, row_Matt, ''REQUIRED (either/or)'', 0)]
   \<and> get_combined_score score_M ''Ian Scott'' ''Matt Maritz'' = 5
   \<and> get_combined_score score_M ''Grant Syme'' ''Matt Maritz'' = 9"
  by (simp add: v1_run_eval v1_eval row_Ian_def row_Grant_def row_Matt_def score_M_def)

text \<open>
  Claim C7, amended. In generate\_pairings.py the fixed candidate, when he is in the pools
  and not yet used as a gunner, is paired with the first option in declaration order that
  is in the pools and not yet used as an anchor. In generate\_pairings\_v2.py Matt is
  paired with an available option (both players found, neither used) of maximal pairing
  score \<open>calculate_pairing_score\<close>, when some available option scores above -1. In
  either script, when no option is available the constraint is skipped: the pairs and the
  used players are unchanged, so the fixed candidate stays in the general pool.
\<close>

theorem either_or_selection:
  "either_or_step top_anchors top_gunners (fixed_pairs, used_anchors, used_gunners)
       (anchor_options, gunner_name) =
     (if gunner_name \<in> Player_Name ` (set top_anchors \<union> set top_gunners)
         \<and> gunner_name \<notin> used_gunners
      then (case List.find (\<lambda>n. n \<in> Player_Name ` (set top_anchors \<union> set top_gunners)
                                  \<and> n \<notin> used_anchors) anchor_options of
              Some n \<Rightarrow> (fixed_pairs @ [(n, gunner_name, ''REQUIRED (either/or)'')],
                         insert n used_anchors, insert gunner_name used_gunners)
            | None \<Rightarrow> (fixed_pairs, used_anchors, used_gunners))
      else (fixed_pairs, used_anchors, used_gunners))
   \<and> (case matt_constraint top_players options (best_pairings, used_players) of
        (best_pairings', used_players') \<Rightarrow>
          if \<exists>opt \<in> set options. \<exists>sc. matt_option_score top_players used_players opt = Some sc
                \<and> - 1 < sc
          then \<exists>n1 n2 p1 p2 sc.
                 (n1, n2) \<in> set options
               \<and> find_player_v2 top_players n1 = Some p1
               \<and> find_player_v2 top_players n2 = Some p2
               \<and> matt_option_score top_players used_players (n1, n2) = Some sc
               \<and> (\<forall>opt \<in> set options. \<forall>sc'.
                     matt_option_score top_players used_players opt = Some sc' \<longrightarrow> sc' \<le> sc)
               \<and> best_pairings' = best_pairings @ [((p1, p2), sc)]
               \<and> used_players' = insert n2 (insert n1 used_players)
          else best_pairings' = best_pairings \<and> used_players' = used_players)"
proof
  show "either_or_step top_anchors top_gunners (fixed_pairs, used_anchors, used_gunners)
       (anchor_options, gunner_name) =
     (if gunner_name \<in> Player_Name ` (set top_anchors \<union> set top_gunners)
         \<and> gunner_name \<notin> used_gunners
      then (case List.find (\<lambda>n. n \<in> Player_Name ` (set top_anchors \<union> set top_gunners)
                                  \<and> n \<notin> used_anchors) anchor_options of
              Some n \<Rightarrow> (fixed_pairs @ [(n, gunner_name, ''REQUIRED (either/or)'')],
                         insert n used_anchors, insert gunner_name used_gunners)
            | None \<Rightarrow> (fixed_pairs, used_anchors, used_gunners))
      else (fixed_pairs, used_anchors, used_gunners))"
    by (rule either_or_step_eq)
next
  obtain r s where fold: "foldl (matt_step top_players used_players) (None, - 1) options = (r, s)"
    by (cases "foldl (matt_step top_players used_players) (None, - 1) options")
  note inv = matt_fold_inv [OF fold]
  show "case matt_constraint top_players options (best_pairings, used_players) of
        (best_pairings', used_players') \<Rightarrow>
          if \<exists>opt \<in> set options. \<exists>sc. matt_option_score top_players used_players opt = Some sc
                \<and> - 1 < sc
          then \<exists>n1 n2 p1 p2 sc.
                 (n1, n2) \<in> set options
               \<and> find_player_v2 top_players n1 = Some p1
               \<and> find_player_v2 top_players n2 = Some p2
               \<and> matt_option_score top_players used_players (n1, n2) = Some sc
               \<and> (\<forall>opt \<in> set options. \<forall>sc'.
                     matt_option_score top_players used_players opt = Some sc' \<longrightarrow> sc' \<le> sc)
               \<and> best_pairings' = best_pairings @ [((p1, p2), sc)]
               \<and> used_players' = insert n2 (insert n1 used_players)
          else best_pairings' = best_pairings \<and> used_players' = used_players"
  proof (cases r)
    case None
    with inv have "\<not> (\<exists>opt \<in> set options. \<exists>sc.
        matt_option_score top_players used_players opt = Some sc \<and> - 1 < sc)"
      by fastforce
    with None fold show ?thesis
      by (simp add: matt_constraint_def)
  next
    case (Some q)
    obtain p1 p2 n1 n2 where q: "q = (p1, p2, n1, n2)" by (cases q)
    from inv Some q have i: "(n1, n2) \<in> set options" "find_player_v2 top_players n1 = Some p1"
      "find_player_v2 top_players n2 = Some p2"
      "matt_option_score top_players used_players (n1, n2) = Some s" "- 1 < s"
      "\<forall>opt \<in> set options. \<forall>sc. matt_option_score top_players used_players opt = Some sc \<longrightarrow> sc \<le> s"
      by auto
    then have ex: "\<exists>opt \<in> set options. \<exists>sc.
        matt_option_score top_players used_players opt = Some sc \<and> - 1 < sc"
      by blast
    have res: "matt_constraint top_players options (best_pairings, used_players)
       = (best_pairings @ [((p1, p2), s)], insert n2 (insert n1 used_players))"
      using fold Some q by (simp add: matt_constraint_def)
    show ?thesis
      unfolding res prod.case using ex i by (simp only: if_True) blast
  qed
qed

theorem either_or_selection_witness:
  "either_or_step [row_Ian, row_Grant] [row_Matt] ([], {}, {})
       ([''Ian Scott'', ''Grant Syme''], ''Matt Maritz'')
     = ([(''Ian Scott'', ''Matt Maritz'', ''REQUIRED (either/or)'')], {''Ian Scott''}, {''Matt Maritz''})
   \<and> matt_constraint players_M matt_options ([], {})
     = ([((player2 ''Matt Maritz'' 10 4, player2 ''Ian Scott'' 10 5), 153 / 25)],
        {''Ian Scott'', ''Matt Maritz''})
   \<and> matt_option_score players_M {} (''Matt Maritz'', ''Grant Syme'') = Some (93 / 25)
   \<and> matt_option_score players_M {} (''Matt Maritz'', ''Ian Scott'') = Some (153 / 25)"
proof -
  have m: "matt_constraint players_M matt_options ([], {})
     = ([((player2 ''Matt Maritz'' 10 4, player2 ''Ian Scott'' 10 5), 153 / 25)],
        {''Ian Scott'', ''Matt Maritz''})"
    by (simp add: v2_step_eval players_M_def)
  have s: "matt_option_score players_M {} (''Matt Maritz'', ''Grant Syme'') = Some (93 / 25)"
    "matt_option_score players_M {} (''Matt Maritz'', ''Ian Scott'') = Some (153 / 25)"
    by (simp_all add: matt_option_score_def v2_step_eval players_M_def)
  from either_or_selection [where top_anchors = "[row_Ian, row_Grant]"
      and top_gunners = "[row_Matt]" and fixed_pairs = "[]" and used_anchors = "{}"
      and used_gunners = "{}" and anchor_options = "[''Ian Scott'', ''Grant Syme'']"
      and gunner_name = "''Matt Maritz''" and top_players = players_M
      and options = matt_options and best_pairings = "[]" and used_players = "{}"]
  have "either_or_step [row_Ian, row_Grant] [row_Matt] ([], {}, {})
       ([''Ian Scott'', ''Grant Syme''], ''Matt Maritz'')
     = ([(''Ian Scott'', ''Matt Maritz'', ''REQUIRED (either/or)'')], {''Ian Scott''}, {''Matt Maritz''})"
    by (simp add: row_Ian_def row_Grant_def row_Matt_def del: either_or_step.simps)
  with m s show ?thesis by simp
qed


lemmas v2_run_eval = generate_pairings_v2_def required_pairings_def v2_step_eval v2_eval
  find_balanced_pairings_def evaluate_def make_row_v2_def

text \<open>
  Claim C9. Every candidate appears in at most one pair of the final output, whichever
  phase produced the pair: in generate\_pairings.py the required and either/or pairs, the
  exact search and the fallback; in generate\_pairings\_v2.py the required pair, the Matt
  constraint and the balance heuristic. The names of the output, listed pair by pair, are
  distinct. The candidates are identified by their names: the pools of one run hold every
  name once (the anchor and gunner pools are disjoint parts of one table of players; the
  players of version 2 are the keys of one dict).
\<close>

theorem each_candidate_in_at_most_one_pair:
  "(distinct (map Player_Name (top_anchors @ top_gunners)) \<longrightarrow>
      generate_pairings top_anchors top_gunners ch_lookup score_lookup = Inr out \<longrightarrow>
      distinct (pair_names out))
   \<and> (distinct (map name top_players) \<longrightarrow>
        generate_pairings_v2 top_players = Inr rows \<longrightarrow>
        distinct (row_names_v2 rows))"
  using generate_pairings_distinct generate_pairings_v2_distinct by blast

text \<open>An instance for each script.\<close>

theorem each_candidate_in_at_most_one_pair_witness:
  "distinct (map Player_Name ([row_A1, row_A2] @ [row_B1, row_B2]))
   \<and> generate_pairings [row_A1, row_A2] [row_B1, row_B2] ch_A score_A
       = Inr [(row_A1, row_B1, ''AUTO'', 20), (row_A2, row_B2, ''AUTO'', 12)]
   \<and> distinct (pair_names [(row_A1, row_B1, ''AUTO'', 20), (row_A2, row_B2, ''AUTO'', 12)])
   \<and> distinct (map name players_six)
   \<and> generate_pairings_v2 players_six
       = Inr [(1, ''PLAY'', player2 ''X'' 4 3, player2 ''Z'' 22 6, 331 / 50),
              (2, ''PLAY'', player2 ''Matt Maritz'' 10 4, player2 ''Ian Scott'' 10 5, 153 / 25),
              (3, ''PLAY'', player2 ''Grant Syme'' 10 1, player2 ''Y'' 16 2, 88 / 25)]
   \<and> distinct (row_names_v2
        [(1, ''PLAY'', player2 ''X'' 4 3, player2 ''Z'' 22 6, 331 / 50),
         (2, ''PLAY'', player2 ''Matt Maritz'' 10 4, player2 ''Ian Scott'' 10 5, 153 / 25),
         (3, ''PLAY'', player2 ''Grant Syme'' 10 1, player2 ''Y'' 16 2, 88 / 25)])"
proof -
  have d1: "distinct (map Player_Name ([row_A1, row_A2] @ [row_B1, row_B2]))"
    by (simp add: row_A1_def row_A2_def row_B1_def row_B2_def)
  have r1: "generate_pairings [row_A1, row_A2] [row_B1, row_B2] ch_A score_A
       = Inr [(row_A1, row_B1, ''AUTO'', 20), (row_A2, row_B2, ''AUTO'', 12)]"
    by (simp add: v1_run_eval v1_eval row_A1_def row_A2_def row_B1_def row_B2_def
          ch_A_def score_A_def)
  have d2: "distinct (map name players_six)"
    by (simp add: players_six_def players_M_def player2_def)
  have r2: "generate_pairings_v2 players_six
       = Inr [(1, ''PLAY'', player2 ''X'' 4 3, player2 ''Z'' 22 6, 331 / 50),
              (2, ''PLAY'', player2 ''Matt Maritz'' 10 4, player2 ''Ian Scott'' 10 5, 153 / 25),
              (3, ''PLAY'', player2 ''Grant Syme'' 10 1, player2 ''Y'' 16 2, 88 / 25)]"
    by (simp add: v2_run_eval players_six_def players_M_def)
  from each_candidate_in_at_most_one_pair [where top_anchors = "[row_A1, row_A2]"
      and top_gunners = "[row_B1, row_B2]" and ch_lookup = ch_A and score_lookup = score_A
      and out = "[(row_A1, row_B1, ''AUTO'', 20), (row_A2, row_B2, ''AUTO'', 12)]"
      and top_players = players_six
      and rows = "[(1, ''PLAY'', player2 ''X'' 4 3, player2 ''Z'' 22 6, 331 / 50),
              (2, ''PLAY'', player2 ''Matt Maritz'' 10 4, player2 ''Ian Scott'' 10 5, 153 / 25),
              (3, ''PLAY'', player2 ''Grant Syme'' 10 1, player2 ''Y'' 16 2, 88 / 25)]"]
    d1 r1 d2 r2
  show ?thesis by blast
qed

section \<open>Claims about generate\_pairings\_v3.py\<close>

lemmas v3_eval = generate_pairings_v3_def REQUIRED_PAIRINGS_v3_def find_player_v3_def
  auto_pairings_def order_pairings_def location_def player3_def

text \<open>
  Claim C1, as stated, fails. With Greg Park selected and Hugo Lamprecht absent, the run
  does not fail: it completes, and Greg Park is paired automatically with another player.
\<close>

theorem missing_required_player_counterexample:
  "generate_pairings_v3 selected_Greg
     = Inr [(1, ''HOME'',
             make_pairing (player3 ''Greg Park'' 5 9 True) (player3 ''Piet'' 12 8 True) ''AUTO'')]
   \<and> find_player_v3 ''Hugo Lamprecht'' selected_Greg = None
   \<and> (''Greg Park'', ''Hugo Lamprecht'') \<in> set REQUIRED_PAIRINGS_v3"
  by (simp add: v3_eval selected_Greg_def make_pairing_def)

text \<open>
  Claim C1, amended. For every required pairing, if both named players are among the
  selected players, the output contains that pair: in generate\_pairings\_v3.py tagged
  \<open>REQUIRED\<close>, with the player of the lower handicap index as anchor, and the run
  completes for every non-empty selection; in generate\_pairings\_v2.py as a row of the two
  players (the rows of version 2 carry no tag). If either player is absent, the scripts
  print a warning and skip the requirement: the pairs and the used players are unchanged,
  and no error is raised.
\<close>

theorem required_pair_realised_or_skipped:
  "(selected \<noteq> [] \<longrightarrow> (n1, n2) \<in> set REQUIRED_PAIRINGS_v3 \<longrightarrow>
      (\<exists>rows. generate_pairings_v3 selected = Inr rows
         \<and> (case (find_player_v3 n1 (sort_key hi selected),
                   find_player_v3 n2 (sort_key hi selected)) of
              (Some p1, Some p2) \<Rightarrow>
                \<exists>i. (i, location i,
                      make_pairing (if hi p1 < hi p2 then p1 else p2)
                        (if hi p1 < hi p2 then p2 else p1) ''REQUIRED'') \<in> set rows
            | _ \<Rightarrow> \<forall>st. required_step_v3 (sort_key hi selected) st (n1, n2) = st)))
   \<and> ((m1, m2) \<in> set required_pairings \<longrightarrow>
        (case (find_player_v2 top_players m1, find_player_v2 top_players m2) of
           (Some q1, Some q2) \<Rightarrow>
             \<exists>rows. generate_pairings_v2 top_players = Inr rows
               \<and> (\<exists>i status. (i, status, (if hi q1 \<le> hi q2 then q1 else q2),
                                 (if hi q1 \<le> hi q2 then q2 else q1),
                                 calculate_pairing_score q1 q2) \<in> set rows)
         | _ \<Rightarrow> \<forall>st. required_step_v2 top_players st (m1, m2) = st))"
proof (intro conjI impI)
  assume "selected \<noteq> []" "(n1, n2) \<in> set REQUIRED_PAIRINGS_v3"
  then show "\<exists>rows. generate_pairings_v3 selected = Inr rows
         \<and> (case (find_player_v3 n1 (sort_key hi selected),
                   find_player_v3 n2 (sort_key hi selected)) of
              (Some p1, Some p2) \<Rightarrow>
                \<exists>i. (i, location i,
                      make_pairing (if hi p1 < hi p2 then p1 else p2)
                        (if hi p1 < hi p2 then p2 else p1) ''REQUIRED'') \<in> set rows
            | _ \<Rightarrow> \<forall>st. required_step_v3 (sort_key hi selected) st (n1, n2) = st)"
    by (rule required_pair_v3)
next
  assume m: "(m1, m2) \<in> set required_pairings"
  show "case (find_player_v2 top_players m1, find_player_v2 top_players m2) of
           (Some q1, Some q2) \<Rightarrow>
             \<exists>rows. generate_pairings_v2 top_players = Inr rows
               \<and> (\<exists>i status. (i, status, (if hi q1 \<le> hi q2 then q1 else q2),
                                 (if hi q1 \<le> hi q2 then q2 else q1),
                                 calculate_pairing_score q1 q2) \<in> set rows)
         | _ \<Rightarrow> \<forall>st. required_step_v2 top_players st (m1, m2) = st"
  proof (cases "find_player_v2 top_players m1")
    case None
    then show ?thesis by (simp add: required_step_v2_absent)
  next
    case s1: (Some q1)
    show ?thesis
    proof (cases "find_player_v2 top_players m2")
      case None
      with s1 show ?thesis by (simp add: required_step_v2_absent)
    next
      case (Some q2)
      from required_pair_v2 [OF m s1 Some] s1 Some show ?thesis by simp
    qed
  qed
qed

theorem required_pair_realised_or_skipped_witness:
  "generate_pairings_v3 selected_Greg_Hugo
     = Inr [(1, ''HOME'',
             make_pairing (player3 ''Hugo Lamprecht'' 10 7 True) (player3 ''Greg Park'' 15 9 True)
               ''REQUIRED''),
            (2, ''HOME'',
             make_pairing (player3 ''Koos'' 3 6 True) (player3 ''Piet'' 12 8 True) ''AUTO'')]
   \<and> required_step_v3 (sort_key hi selected_Greg) ([], {}) (''Greg Park'', ''Hugo Lamprecht'')
       = ([], {})
   \<and> generate_pairings_v2 players_GH
       = Inr [(1, ''PLAY'', player2 ''Hugo Lamprecht'' 10 7, player2 ''Greg Park'' 15 9, 283 / 25)]"
proof -
  have a: "generate_pairings_v3 selected_Greg_Hugo
     = Inr [(1, ''HOME'',
             make_pairing (player3 ''Hugo Lamprecht'' 10 7 True) (player3 ''Greg Park'' 15 9 True)
               ''REQUIRED''),
            (2, ''HOME'',
             make_pairing (player3 ''Koos'' 3 6 True) (player3 ''Piet'' 12 8 True) ''AUTO'')]"
    by (simp add: v3_eval selected_Greg_Hugo_def make_pairing_def)
  have b: "generate_pairings_v2 players_GH
       = Inr [(1, ''PLAY'', player2 ''Hugo Lamprecht'' 10 7, player2 ''Greg Park'' 15 9, 283 / 25)]"
    by (simp add: v2_run_eval players_GH_def)
  have c: "selected_Greg \<noteq> []" "(''Greg Park'', ''Hugo Lamprecht'') \<in> set REQUIRED_PAIRINGS_v3"
    "find_player_v3 ''Hugo Lamprecht'' (sort_key hi selected_Greg) = None"
    by (simp_all add: selected_Greg_def REQUIRED_PAIRINGS_v3_def find_player_v3_def player3_def)
  from required_pair_realised_or_skipped [where selected = selected_Greg
      and ?n1.0 = "''Greg Park''" and ?n2.0 = "''Hugo Lamprecht''"] c
  have "required_step_v3 (sort_key hi selected_Greg) ([], {}) (''Greg Park'', ''Hugo Lamprecht'')
       = ([], {})"
    by (auto split: option.splits)
  with a b show ?thesis by simp
qed

text \<open>
  The sixteen selected players step by step: they are in handicap order, none of them is
  named in a required pairing, and the eight automatic pairs come out in order of score.
\<close>

lemma selected16_sorted: "sort_key hi selected16 = selected16"
  by (simp add: selected16_def player3_def)

lemma selected16_halves: "take 8 selected16 = anchors8" "drop 8 selected16 = gunners8"
  by (simp_all add: selected16_def anchors8_def gunners8_def)

lemma halves_sorted:
  "sort_key (\<lambda>p. - cvs p) anchors8 = anchors8" "sort_key (\<lambda>p. - cvs p) gunners8 = gunners8"
  by (simp_all add: anchors8_def gunners8_def player3_def)

lemma selected16_auto: "auto_pairings selected16 ([], {}) = pairs16"
proof -
  have "length selected16 = 16" by (simp add: selected16_def)
  then show ?thesis
    by (simp add: auto_pairings_def selected16_sorted selected16_halves halves_sorted)
       (simp add: anchors8_def gunners8_def pairs16_def)
qed

lemma selected16_required:
  "foldl (required_step_v3 selected16) ([], {}) REQUIRED_PAIRINGS_v3 = ([], {})"
  by (simp add: selected16_def player3_def REQUIRED_PAIRINGS_v3_def find_player_v3_def)

lemma pairs16_order: "order_pairings pairs16 = pairs16"
  by (simp add: order_pairings_def pairs16_def make_pairing_def player3_def)

lemma selected16_run:
  "generate_pairings_v3 selected16
     = Inr (map (\<lambda>(i, p). (i, location i, p)) (zip [1 ..< 9] pairs16))"
proof -
  have "length pairs16 = 8" by (simp add: pairs16_def)
  moreover have "selected16 \<noteq> []" by (simp add: selected16_def)
  ultimately show ?thesis
    by (simp add: generate_pairings_v3_def selected16_sorted selected16_required
          selected16_auto pairs16_order del: upt_Suc)
qed

text \<open>
  Claim C3. Sixteen selected players, of whom five anchors are AWAY-only, so that only
  three of the eight pairs are HOME-eligible. The final list holds these three, then the
  AWAY-only pairs, and the fourth position, a HOME position, goes to the AWAY-only pair of
  P04 and P12, although the script says that AWAY-only pairs must go to AWAY slots.
\<close>

theorem away_only_pair_in_home_slot:
  "generate_pairings_v3 selected16
     = Inr (map (\<lambda>(i, p). (i, location i, p)) (zip [1 ..< 9] pairs16))
   \<and> map (\<lambda>(i, loc, p). (i, loc, name (anchor p), name (gunner p), can_play_home p))
       (map (\<lambda>(i, p). (i, location i, p)) (zip [1 ..< 9] pairs16))
     = [(1, ''HOME'', ''P01'', ''P09'', True), (2, ''HOME'', ''P02'', ''P10'', True),
        (3, ''HOME'', ''P03'', ''P11'', True), (4, ''HOME'', ''P04'', ''P12'', False),
        (5, ''AWAY'', ''P05'', ''P13'', False), (6, ''AWAY'', ''P06'', ''P14'', False),
        (7, ''AWAY'', ''P07'', ''P15'', False), (8, ''AWAY'', ''P08'', ''P16'', False)]
   \<and> \<not> player_v3.can_play_home (player3 ''P04'' 4 13 False)"
  by (simp add: selected16_run pairs16_def upt_conv_Cons location_def make_pairing_def
        player3_def del: upt_Suc)

end
